theory Spec2Isabelle
  imports Main "HOL-Library.AList" "HOL-Library.Char_ord" "HOL-Library.List_Lexorder"
    "HOL-Library.Multiset" "HOL-Library.Sublist"
begin

section \<open>Batch extraction of ZIP archives and merging of PDF files\<close>

text \<open>
  The script \<^verbatim>\<open>batch_unzip(directory)\<close> locates the ZIP archives directly inside
  \<^verbatim>\<open>directory\<close>, recreates \<^verbatim>\<open>directory/combined_extraction\<close>, extracts every
  archive into it and finally calls \<^verbatim>\<open>combine_pdfs\<close> on that folder. The script is
  glue over \<^verbatim>\<open>os\<close>, \<^verbatim>\<open>shutil\<close>, \<^verbatim>\<open>glob\<close>, \<^verbatim>\<open>zipfile\<close> and \<^verbatim>\<open>PyPDF2\<close>; the model
  below makes the part of the file system the script touches an explicit value that is
  passed through the run, and writes every exception of a library call as a value.
  Names are byte strings on a POSIX, case-sensitive file system; entries are regular
  files or directories (no links, no concurrent change of the directory).
\<close>

subsection \<open>Data\<close>

text \<open>
  What a regular file holds, as far as the two libraries can tell: a readable PDF with its
  pages, a ZIP archive with its members in central-directory order, or anything else. A
  member has its name and either its data, with whether the stored CRC matches them, or
  the exception that opening or reading it raises: \<^verbatim>\<open>zlib.error\<close> for a damaged
  compressed stream, \<^verbatim>\<open>RuntimeError\<close> for an encrypted member (the script gives no
  password), \<^verbatim>\<open>NotImplementedError\<close> for a compression method that is not supported,
  \<^verbatim>\<open>BadZipFile\<close> for a damaged local header.
\<close>

datatype exn =
  BadZipFile | OSError | KeyError | PdfReadError | ZlibError | RuntimeError | NotImplementedError

datatype content = Blob string | Pdf "string list" | Zip "member list"
  and member =
      Member (filename: string) (crc_ok: bool) (body: content)
    | Unreadable (filename: string) (raised: exn)

datatype node = File content | Dir "(string \<times> node) list"

text \<open>A directory is the list of its entries, in the order \<^verbatim>\<open>os.listdir\<close> reports them.\<close>

type_synonym listing = "(string \<times> node) list"

type_synonym path = "string list"

text \<open>The lines the script prints, one constructor for each kind that matters here.\<close>

datatype event =
    ErrNoDirectory
  | PermissionCheck bool bool bool
  | ErrPermissions
  | UsingMethod nat "string list"
  | NoZipFound
  | FoundZips "string list"
  | RemovingExisting
  | CreatedDest
  | Processing string
  | ZipValid bool
  | CorruptedSkipping
  | NotZipSkipping string
  | ZipContains nat
  | ExtractionCompleted
  | Added nat
  | ErrExtracting string exn
  | TotalOnDisk nat
  | Expected nat
  | NoPdfFound
  | FoundPdfs nat
  | Adding string
  | ErrAdding path exn
  | Writing
  | SuccessCombined nat
  | ErrCombining exn
  | MergeSkipped
  | Completed

datatype handle = ArchiveHandle string | MergerHandle

text \<open>
  The state a run threads through: the entries of \<^verbatim>\<open>directory\<close>, the counter
  \<^verbatim>\<open>total_files_extracted\<close>, the printed lines and the handles that are open.
\<close>

record state =
  fs :: listing
  total_files_extracted :: nat
  out :: "event list"
  opened :: "handle list"

text \<open>
  What \<^verbatim>\<open>directory\<close> names when the run starts (\<open>None\<close>: nothing), with the three
  answers of \<^verbatim>\<open>os.access\<close>.
\<close>

record world =
  target :: "node option"
  r_ok :: bool
  w_ok :: bool
  x_ok :: bool

subsection \<open>Strings\<close>

text \<open>\<^verbatim>\<open>str.lower\<close> on ASCII names: the letters A to Z go to a to z, any other byte stays.\<close>

definition lower_char :: "char \<Rightarrow> char" where
  "lower_char c =
     (case map_of (zip ''ABCDEFGHIJKLMNOPQRSTUVWXYZ'' ''abcdefghijklmnopqrstuvwxyz'') c of
        Some l \<Rightarrow> l
      | None \<Rightarrow> c)"

definition lower :: "string \<Rightarrow> string" where
  "lower s = map lower_char s"

definition endswith :: "string \<Rightarrow> string \<Rightarrow> bool" where
  "endswith s suf = (length suf \<le> length s \<and> drop (length s - length suf) s = suf)"

text \<open>\<^verbatim>\<open>str.split('/')\<close>: the pieces between the separators, empty pieces included.\<close>

fun split_slash :: "string \<Rightarrow> string list" where
  "split_slash [] = [[]]"
| "split_slash (c # cs) =
     (if c = CHR ''/'' then [] # split_slash cs
      else (case split_slash cs of [] \<Rightarrow> [[c]] | p # ps \<Rightarrow> (c # p) # ps))"

text \<open>
  \<^verbatim>\<open>zipfile\<close> builds the target of a member from its name by dropping the empty,
  \<^verbatim>\<open>.\<close> and \<^verbatim>\<open>..\<close> components.
\<close>

definition arc_parts :: "string \<Rightarrow> path" where
  "arc_parts n = filter (\<lambda>x. x \<noteq> [] \<and> x \<noteq> ''.'' \<and> x \<noteq> ''..'') (split_slash n)"

fun join_slash :: "path \<Rightarrow> string" where
  "join_slash [] = []"
| "join_slash [x] = x"
| "join_slash (x # xs) = x @ ''/'' @ join_slash xs"

subsection \<open>The file system calls\<close>

definition listdir :: "listing \<Rightarrow> string list" where
  "listdir d = map fst d"

definition isfile :: "listing \<Rightarrow> string \<Rightarrow> bool" where
  "isfile d n = (case map_of d n of Some (File _) \<Rightarrow> True | _ \<Rightarrow> False)"

text \<open>The node a relative path names, if any.\<close>

fun lookup :: "listing \<Rightarrow> path \<Rightarrow> node option" where
  "lookup d [] = Some (Dir d)"
| "lookup d [c] = map_of d c"
| "lookup d (c # cs) =
     (case map_of d c of Some (Dir sub) \<Rightarrow> lookup sub cs | _ \<Rightarrow> None)"

text \<open>
  \<^verbatim>\<open>glob.glob(os.path.join(directory, "*.zip"))\<close>, for a directory whose own path has
  no wildcard: the entries of any kind whose name ends in \<^verbatim>\<open>.zip\<close> as written and does
  not start with a dot, given here by their base names (the script takes
  \<^verbatim>\<open>os.path.basename\<close> of each).
\<close>

definition glob_zip :: "listing \<Rightarrow> string list" where
  "glob_zip d = filter (\<lambda>n. endswith n ''.zip'' \<and> \<not> (n \<noteq> [] \<and> hd n = CHR ''.'')) (listdir d)"

text \<open>
  Writing below a directory, as \<^verbatim>\<open>zipfile\<close> extracts one member and as \<^verbatim>\<open>open(p, "wb")\<close>
  writes a file: missing directories on the way are made, a regular file on the way is an
  error; a data member (\<open>Some b\<close>) replaces a regular file and fails on a directory; a
  directory member (\<open>None\<close>) is made unless a directory is there already and fails on a
  regular file. The call either fails and changes nothing, or succeeds.
\<close>

fun write_at :: "path \<Rightarrow> content option \<Rightarrow> listing \<Rightarrow> exn + listing" where
  "write_at [] None d = Inr d"
| "write_at [] (Some b) d = Inl OSError"
| "write_at [c] None d =
     (case map_of d c of
        None \<Rightarrow> Inr (AList.update c (Dir []) d)
      | Some (Dir _) \<Rightarrow> Inr d
      | Some (File _) \<Rightarrow> Inl OSError)"
| "write_at [c] (Some b) d =
     (case map_of d c of
        Some (Dir _) \<Rightarrow> Inl OSError
      | _ \<Rightarrow> Inr (AList.update c (File b) d))"
| "write_at (c # cs) w d =
     (case map_of d c of
        Some (File _) \<Rightarrow> Inl OSError
      | Some (Dir sub) \<Rightarrow>
          (case write_at cs w sub of
             Inl e \<Rightarrow> Inl e
           | Inr sub' \<Rightarrow> Inr (AList.update c (Dir sub') d))
      | None \<Rightarrow>
          (case write_at cs w [] of
             Inl e \<Rightarrow> Inl e
           | Inr sub' \<Rightarrow> Inr (AList.update c (Dir sub') d)))"

text \<open>
  \<^verbatim>\<open>os.walk\<close>, top down: for every directory its path, its sub-directories and its
  files.
\<close>

function walk :: "path \<Rightarrow> listing \<Rightarrow> (path \<times> string list \<times> string list) list" where
  "walk root d =
     (root, [n. (n, x) \<leftarrow> d, case x of Dir _ \<Rightarrow> True | File _ \<Rightarrow> False],
            [n. (n, x) \<leftarrow> d, case x of Dir _ \<Rightarrow> False | File _ \<Rightarrow> True])
     # concat (map (\<lambda>(n, x). case x of Dir sub \<Rightarrow> walk (root @ [n]) sub | File _ \<Rightarrow> []) d)"
  by pat_completeness auto

termination walk
proof (relation "measure (\<lambda>(root, d). size_list (size_prod (\<lambda>_. 0) size) d)")
  show "wf (measure (\<lambda>(root, d). size_list (size_prod (\<lambda>_. 0) size) d))"
    by simp
next
  fix root :: path and d :: listing and x :: "string \<times> node" and n :: string
    and y :: node and sub :: listing
  assume mem: "x \<in> set d" and x: "(n, y) = x" and y: "y = Dir sub"
  have less: "(n, Dir sub) \<in> set e \<Longrightarrow>
      size_list (size_prod (\<lambda>_. 0) size) sub < size_list (size_prod (\<lambda>_. 0) size) e"
    for e :: listing
    by (induction e) auto
  from mem x y have "(n, Dir sub) \<in> set d"
    by simp
  then show "((root @ [n], sub), (root, d))
      \<in> measure (\<lambda>(root, d). size_list (size_prod (\<lambda>_. 0) size) d)"
    using less by simp
qed

declare walk.simps [simp del]

definition walk_at :: "listing \<Rightarrow> path \<Rightarrow> (path \<times> string list \<times> string list) list" where
  "walk_at d p = (case lookup d p of Some (Dir sub) \<Rightarrow> walk p sub | _ \<Rightarrow> [])"

subsection \<open>The archive calls\<close>

text \<open>
  \<^verbatim>\<open>zipfile.ZipFile(file_path, 'r')\<close>: a directory or a missing file is an
  \<^verbatim>\<open>OSError\<close>, a file that is no archive is \<^verbatim>\<open>BadZipFile\<close>.
\<close>

definition ZipFile :: "listing \<Rightarrow> string \<Rightarrow> exn + member list" where
  "ZipFile d item =
     (case map_of d item of
        None \<Rightarrow> Inl OSError
      | Some (Dir _) \<Rightarrow> Inl OSError
      | Some (File (Zip ms)) \<Rightarrow> Inr ms
      | Some (File _) \<Rightarrow> Inl BadZipFile)"

definition namelist :: "member list \<Rightarrow> string list" where
  "namelist ms = map filename ms"

text \<open>Members are found by name; of two members with one name the later one is found.\<close>

definition getinfo :: "member list \<Rightarrow> string \<Rightarrow> member option" where
  "getinfo ms n = find (\<lambda>m. filename m = n) (rev ms)"

text \<open>
  Opening a member and reading it to its end: its data, or the exception; a CRC that does
  not match is a \<^verbatim>\<open>BadZipFile\<close>.
\<close>

definition read_member :: "member \<Rightarrow> exn + content" where
  "read_member m =
     (case m of
        Member n ok b \<Rightarrow> (if ok then Inr b else Inl BadZipFile)
      | Unreadable n e \<Rightarrow> Inl e)"

text \<open>
  \<^verbatim>\<open>testzip\<close> reads the members in the order of \<^verbatim>\<open>filelist\<close>, each opened by its
  name. It catches \<^verbatim>\<open>BadZipFile\<close> only and then returns the name; any other exception
  of a read leaves the call. \<open>Inr None\<close> is the return after the last member.
\<close>

fun testzip_from :: "member list \<Rightarrow> member list \<Rightarrow> exn + string option" where
  "testzip_from ms [] = Inr None"
| "testzip_from ms (zinfo # rest) =
     (case getinfo ms (filename zinfo) of
        None \<Rightarrow> Inl KeyError
      | Some m \<Rightarrow>
          (case read_member m of
             Inl e \<Rightarrow> (if e = BadZipFile then Inr (Some (filename zinfo)) else Inl e)
           | Inr data \<Rightarrow> testzip_from ms rest))"

definition testzip :: "member list \<Rightarrow> exn + string option" where
  "testzip ms = testzip_from ms ms"

text \<open>
  Extracting the member of one name below the folder \<open>path\<close>: a name that ends in a
  slash is a directory member, any other a data member, whose data are read and written.
  A data member that cannot be read raises. The script never extracts such a member: it
  extracts an archive only after \<^verbatim>\<open>testzip\<close> has read every member of it without an
  exception (lemma \<open>testzip_reads\<close> below), so what such an extraction would leave
  behind is not modelled.
\<close>

definition extract_member :: "member list \<Rightarrow> string \<Rightarrow> string \<Rightarrow> listing \<Rightarrow> exn + listing" where
  "extract_member ms path n d =
     (case getinfo ms n of
        None \<Rightarrow> Inl KeyError
      | Some m \<Rightarrow>
          (if endswith (filename m) ''/'' then write_at (path # arc_parts (filename m)) None d
           else (case read_member m of
                   Inl e \<Rightarrow> Inl e
                 | Inr data \<Rightarrow> write_at (path # arc_parts (filename m)) (Some data) d)))"

text \<open>
  \<^verbatim>\<open>extractall\<close> extracts the names of \<^verbatim>\<open>namelist()\<close> one after the other; the first
  error ends it and what was written before stays.
\<close>

fun extract_each :: "member list \<Rightarrow> string \<Rightarrow> string list \<Rightarrow> listing \<Rightarrow> listing \<times> exn option" where
  "extract_each ms path [] d = (d, None)"
| "extract_each ms path (n # ns) d =
     (case extract_member ms path n d of
        Inl e \<Rightarrow> (d, Some e)
      | Inr d' \<Rightarrow> extract_each ms path ns d')"

definition extractall :: "member list \<Rightarrow> string \<Rightarrow> listing \<Rightarrow> listing \<times> exn option" where
  "extractall ms path d = extract_each ms path (namelist ms) d"

subsection \<open>The script\<close>

definition print_line :: "event \<Rightarrow> state \<Rightarrow> state" where
  "print_line e s = s\<lparr>out := out s @ [e]\<rparr>"

definition acquire :: "handle \<Rightarrow> state \<Rightarrow> state" where
  "acquire h s = s\<lparr>opened := h # opened s\<rparr>"

definition release :: "handle \<Rightarrow> state \<Rightarrow> state" where
  "release h s = s\<lparr>opened := remove1 h (opened s)\<rparr>"

text \<open>\<^verbatim>\<open>check_permissions(directory)\<close>: what it prints and what it returns.\<close>

definition check_permissions :: "world \<Rightarrow> event list \<times> bool" where
  "check_permissions w =
     (let read_permission = r_ok w;
          write_permission = w_ok w;
          execute_permission = x_ok w
      in ([PermissionCheck read_permission write_permission execute_permission],
          read_permission \<and> write_permission \<and> execute_permission))"

text \<open>
  Lines 89 to 118 of \<^verbatim>\<open>batch_unzip\<close>, the search for the archives: the three lists and
  the choice between them, with the number of the method that is used. \<open>None\<close> is the
  branch that prints that no ZIP files were found and returns.
\<close>

definition find_zip_files :: "listing \<Rightarrow> (nat \<times> string list) option" where
  "find_zip_files d =
     (let zip_files = filter (\<lambda>item. isfile d item \<and> endswith (lower item) ''.zip'') (listdir d);
          glob_files = glob_zip d;
          all_files = listdir d;
          case_insensitive_zips = filter (\<lambda>f. endswith (lower f) ''.zip'') all_files
      in if length zip_files > 0 then Some (1, zip_files)
         else if length glob_files > 0 then Some (2, glob_files)
         else if length case_insensitive_zips > 0 then Some (3, case_insensitive_zips)
         else None)"

definition extract_path :: string where
  "extract_path = ''combined_extraction''"

text \<open>
  Lines 122 to 129: \<^verbatim>\<open>shutil.rmtree\<close> of the folder if something of that name exists,
  then \<^verbatim>\<open>os.makedirs\<close>. \<^verbatim>\<open>rmtree\<close> raises on a regular file, and nothing in
  \<^verbatim>\<open>batch_unzip\<close> catches that.
\<close>

definition recreate :: "state \<Rightarrow> exn + state" where
  "recreate s =
     (case map_of (fs s) extract_path of
        None \<Rightarrow>
          Inr (print_line CreatedDest (s\<lparr>fs := AList.update extract_path (Dir []) (fs s)\<rparr>))
      | Some (File _) \<Rightarrow> Inl OSError
      | Some (Dir _) \<Rightarrow>
          (let s1 = print_line RemovingExisting s;
               s2 = s1\<lparr>fs := AList.delete extract_path (fs s1)\<rparr>
           in Inr (print_line CreatedDest (s2\<lparr>fs := AList.update extract_path (Dir []) (fs s2)\<rparr>))))"

text \<open>
  Lines 153 to 168, the second \<^verbatim>\<open>with\<close> block of the loop body, together with the
  handler of lines 170 to 174 that catches what it raises. Leaving the block releases
  the handle on every way out.
\<close>

definition extract_archive :: "string \<Rightarrow> state \<Rightarrow> state" where
  "extract_archive item s =
     (case ZipFile (fs s) item of
        Inl e \<Rightarrow> print_line (ErrExtracting item e) s
      | Inr zip_ref \<Rightarrow>
          (let s1 = acquire (ArchiveHandle item) s;
               file_list = namelist zip_ref;
               s2 = print_line (ZipContains (length file_list)) s1
           in case extractall zip_ref extract_path (fs s2) of
                (d, Some e) \<Rightarrow>
                  print_line (ErrExtracting item e) (release (ArchiveHandle item) (s2\<lparr>fs := d\<rparr>))
              | (d, None) \<Rightarrow>
                  (let s3 = print_line ExtractionCompleted (s2\<lparr>fs := d\<rparr>);
                       files_in_zip = length (filter (\<lambda>f. \<not> endswith f ''/'') file_list);
                       s4 = s3\<lparr>total_files_extracted := total_files_extracted s3 + files_in_zip\<rparr>
                   in release (ArchiveHandle item) (print_line (Added files_in_zip) s4))))"

text \<open>
  Lines 135 to 174, the body of the loop over \<^verbatim>\<open>zip_files\<close>. A missing file makes
  \<^verbatim>\<open>os.path.getsize\<close> raise the \<^verbatim>\<open>OSError\<close> that opening it would raise, to the same
  handler. The first \<^verbatim>\<open>with\<close> block lies in the inner \<^verbatim>\<open>try\<close>, whose handler
  (line 149) takes a \<^verbatim>\<open>BadZipFile\<close>; any other exception, of the opening or of
  \<^verbatim>\<open>testzip\<close>, goes to the handler of line 170. An exception of \<^verbatim>\<open>testzip\<close>
  leaves the \<^verbatim>\<open>with\<close> block, which releases the handle.
\<close>

definition process_item :: "string \<Rightarrow> state \<Rightarrow> state" where
  "process_item item s =
     (let s1 = print_line (Processing item) s
      in case ZipFile (fs s1) item of
           Inl e \<Rightarrow>
             (if e = BadZipFile then print_line (NotZipSkipping item) s1
              else print_line (ErrExtracting item e) s1)
         | Inr test_zip \<Rightarrow>
             (let s2 = acquire (ArchiveHandle item) s1
              in case testzip test_zip of
                   Inl e \<Rightarrow>
                     (if e = BadZipFile
                      then print_line (NotZipSkipping item) (release (ArchiveHandle item) s2)
                      else print_line (ErrExtracting item e) (release (ArchiveHandle item) s2))
                 | Inr result \<Rightarrow>
                     (let is_valid = (result = None);
                          s3 = print_line (ZipValid is_valid) s2
                      in if \<not> is_valid
                         then release (ArchiveHandle item) (print_line CorruptedSkipping s3)
                         else extract_archive item (release (ArchiveHandle item) s3))))"

primrec extract_loop :: "string list \<Rightarrow> state \<Rightarrow> state" where
  "extract_loop [] s = s"
| "extract_loop (item # rest) s = extract_loop rest (process_item item s)"

text \<open>
  The loop of \<^verbatim>\<open>combine_pdfs\<close> over the sorted candidates: a file \<^verbatim>\<open>PdfMerger.append\<close>
  can read adds its pages, any other raises inside the inner \<^verbatim>\<open>try\<close>.
\<close>

fun add_pdfs :: "path list \<Rightarrow> string list \<Rightarrow> state \<Rightarrow> string list \<times> state" where
  "add_pdfs [] merger s = (merger, s)"
| "add_pdfs (pdf # rest) merger s =
     (let s1 = print_line (Adding (last pdf)) s
      in case lookup (fs s1) pdf of
           Some (File (Pdf ps)) \<Rightarrow> add_pdfs rest (merger @ ps) s1
         | _ \<Rightarrow> add_pdfs rest merger (print_line (ErrAdding pdf PdfReadError) s1))"

text \<open>
  \<^verbatim>\<open>os.walk\<close> followed by the test of the suffix, as both functions of the script use
  it: the paths of the regular files below \<open>p\<close> whose name passes \<open>keep\<close>.
\<close>

definition files_below :: "listing \<Rightarrow> path \<Rightarrow> (string \<Rightarrow> bool) \<Rightarrow> path list" where
  "files_below d p keep =
     concat (map (\<lambda>(root, dirs, files). map (\<lambda>file. root @ [file]) (filter keep files))
                 (walk_at d p))"

text \<open>
  \<^verbatim>\<open>combine_pdfs(directory)\<close>, called with the extraction folder. Python compares the
  full path strings; they share the prefix up to the folder, so the order is the order
  of the paths written from the folder on. \<^verbatim>\<open>merger.close()\<close> is the last call of the
  \<^verbatim>\<open>try\<close> block and is not reached when \<^verbatim>\<open>merger.write\<close> raises.
\<close>

definition combine_pdfs :: "string \<Rightarrow> state \<Rightarrow> state" where
  "combine_pdfs directory s =
     (let pdf_files = files_below (fs s) [directory] (\<lambda>file. endswith (lower file) ''.pdf'')
      in if pdf_files = [] then print_line NoPdfFound s
         else
           (let s1 = print_line (FoundPdfs (length pdf_files)) s;
                pdf_files = sort_key join_slash pdf_files;
                output_path = [directory, ''merged.pdf''];
                s2 = acquire MergerHandle s1;
                (merger, s3) = add_pdfs pdf_files [] s2;
                s4 = print_line Writing s3
            in case write_at output_path (Some (Pdf merger)) (fs s4) of
                 Inl e \<Rightarrow> print_line (ErrCombining e) s4
               | Inr d \<Rightarrow>
                   print_line (SuccessCombined (length pdf_files))
                     (release MergerHandle (s4\<lparr>fs := d\<rparr>))))"

text \<open>
  What a run leaves: the directory, the printed lines, an exception nobody caught, and
  the handles still open.
\<close>

record run =
  after :: "node option"
  printed :: "event list"
  uncaught :: "exn option"
  left_open :: "handle list"

text \<open>Lines 120 to 196: everything after the archives have been found.\<close>

definition extract_and_merge :: "bool \<Rightarrow> string list \<Rightarrow> state \<Rightarrow> exn + state" where
  "extract_and_merge pdf_merger_available zip_files s =
     (case recreate (print_line (FoundZips zip_files) s) of
        Inl e \<Rightarrow> Inl e
      | Inr s1 \<Rightarrow>
          (let s2 = extract_loop zip_files (s1\<lparr>total_files_extracted := 0\<rparr>);
               all_extracted_files = files_below (fs s2) [extract_path] (\<lambda>file. True);
               s3 = print_line (Expected (total_files_extracted s2))
                      (print_line (TotalOnDisk (length all_extracted_files)) s2);
               s4 = (if pdf_merger_available then combine_pdfs extract_path s3
                     else print_line MergeSkipped s3)
           in Inr (print_line Completed s4)))"

text \<open>
  \<^verbatim>\<open>batch_unzip(directory)\<close>, with the module flag \<^verbatim>\<open>pdf_merger_available\<close> as its
  first argument. \<^verbatim>\<open>os.listdir\<close> raises when the path names a regular file, and
  nothing catches that.
\<close>

definition batch_unzip :: "bool \<Rightarrow> world \<Rightarrow> run" where
  "batch_unzip pdf_merger_available w =
     (case target w of
        None \<Rightarrow> \<lparr>after = None, printed = [ErrNoDirectory], uncaught = None, left_open = []\<rparr>
      | Some t \<Rightarrow>
          (case check_permissions w of
             (lines, False) \<Rightarrow>
               \<lparr>after = Some t, printed = lines @ [ErrPermissions], uncaught = None, left_open = []\<rparr>
           | (lines, True) \<Rightarrow>
               (case t of
                  File _ \<Rightarrow>
                    \<lparr>after = Some t, printed = lines, uncaught = Some OSError, left_open = []\<rparr>
                | Dir d \<Rightarrow>
                    (case find_zip_files d of
                       None \<Rightarrow>
                         \<lparr>after = Some t, printed = lines @ [NoZipFound], uncaught = None,
                          left_open = []\<rparr>
                     | Some (method, zip_files) \<Rightarrow>
                         (case extract_and_merge pdf_merger_available zip_files
                                 \<lparr>fs = d, total_files_extracted = 0,
                                  out = lines @ [UsingMethod method zip_files], opened = []\<rparr> of
                            Inl e \<Rightarrow>
                              \<lparr>after = Some t,
                               printed = lines @ [UsingMethod method zip_files, FoundZips zip_files,
                                                  RemovingExisting],
                               uncaught = Some e, left_open = []\<rparr>
                          | Inr s \<Rightarrow>
                              \<lparr>after = Some (Dir (fs s)), printed = out s, uncaught = None,
                               left_open = opened s\<rparr>)))))"

subsection \<open>Notions of the specification\<close>

text \<open>
  The regular files directly inside the directory whose name ends in \<^verbatim>\<open>.zip\<close>, case
  ignored, in the order of the directory.
\<close>

definition zip_named_files :: "listing \<Rightarrow> string list" where
  "zip_named_files d = filter (\<lambda>n. isfile d n \<and> endswith (lower n) ''.zip'') (listdir d)"

text \<open>What the search hands to the extraction: the chosen list, or nothing.\<close>

definition located :: "listing \<Rightarrow> string list" where
  "located d = (case find_zip_files d of None \<Rightarrow> [] | Some (method, zip_files) \<Rightarrow> zip_files)"

text \<open>
  An archive the loop does not extract: it cannot be opened as a ZIP archive, or
  \<^verbatim>\<open>testzip\<close> names a member that fails the check, or \<^verbatim>\<open>testzip\<close> raises on a
  member it cannot read. \<open>skip_lines\<close> are the lines the loop prints for it.
\<close>

definition bad_archive :: "listing \<Rightarrow> string \<Rightarrow> bool" where
  "bad_archive d item =
     (case ZipFile d item of Inl e \<Rightarrow> True | Inr ms \<Rightarrow> testzip ms \<noteq> Inr None)"

definition skip_lines :: "listing \<Rightarrow> string \<Rightarrow> event list" where
  "skip_lines d item =
     (case ZipFile d item of
        Inl e \<Rightarrow>
          [Processing item, if e = BadZipFile then NotZipSkipping item else ErrExtracting item e]
      | Inr ms \<Rightarrow>
          (case testzip ms of
             Inl e \<Rightarrow>
               [Processing item,
                if e = BadZipFile then NotZipSkipping item else ErrExtracting item e]
           | Inr result \<Rightarrow> [Processing item, ZipValid False, CorruptedSkipping]))"

text \<open>
  The data the names \<open>ns\<close> of an archive put at a path: that of the last data member
  among them whose name leads to the path.
\<close>

definition written_by :: "member list \<Rightarrow> string list \<Rightarrow> path \<Rightarrow> content option" where
  "written_by ms ns p =
     (case find (\<lambda>n. \<not> endswith n ''/'' \<and> arc_parts n = p) (rev ns) of
        None \<Rightarrow> None
      | Some n \<Rightarrow>
          (case getinfo ms n of
             None \<Rightarrow> None
           | Some m \<Rightarrow> (case read_member m of Inl e \<Rightarrow> None | Inr data \<Rightarrow> Some data)))"

text \<open>
  The PDF candidates of the merge: the regular files below the folder whose name ends in
  \<^verbatim>\<open>.pdf\<close>, case ignored. \<open>appends\<close> says that \<^verbatim>\<open>PdfMerger.append\<close> can read the
  file at a path, \<open>pages_of\<close> gives the pages it then adds (none when it cannot).
\<close>

definition pdf_candidates :: "listing \<Rightarrow> string \<Rightarrow> path list" where
  "pdf_candidates d directory = files_below d [directory] (\<lambda>file. endswith (lower file) ''.pdf'')"

definition pages_of :: "listing \<Rightarrow> path \<Rightarrow> string list" where
  "pages_of d p = (case lookup d p of Some (File (Pdf ps)) \<Rightarrow> ps | _ \<Rightarrow> [])"

definition appends :: "listing \<Rightarrow> path \<Rightarrow> bool" where
  "appends d p = (case lookup d p of Some (File (Pdf ps)) \<Rightarrow> True | _ \<Rightarrow> False)"

text \<open>
  The directory as the loop over the archives \<open>zip_files\<close> leaves it, in a run that
  found the directory \<open>d\<close> and has recreated the extraction folder.
\<close>

definition extracted :: "listing \<Rightarrow> string list \<Rightarrow> listing" where
  "extracted d zip_files =
     fs (extract_loop zip_files
           \<lparr>fs = AList.update extract_path (Dir []) (AList.delete extract_path d),
            total_files_extracted = 0, out = [], opened = []\<rparr>)"

text \<open>Printed lines among which the folder is neither removed nor created.\<close>

definition quiet :: "event list \<Rightarrow> bool" where
  "quiet l \<longleftrightarrow> CreatedDest \<notin> set l \<and> RemovingExisting \<notin> set l"

text \<open>
  The members of an archive as the extraction sees them: the path below the folder and
  whether the member carries data (its name does not end in a slash). The members of a
  batch are in conflict when a data member has an empty path, or its path is a prefix of
  the path of another member, unless both are data members of the same path. Archives
  whose paths do not overlap have no conflict. \<open>valid_archives\<close>: every archive of
  the batch opens and passes \<^verbatim>\<open>testzip\<close>; \<open>file_entries\<close>: the number of its names
  that do not end in a slash.
\<close>

definition archive_entries :: "member list \<Rightarrow> (path \<times> bool) list" where
  "archive_entries ms = map (\<lambda>n. (arc_parts n, \<not> endswith n ''/'')) (namelist ms)"

definition batch_entries :: "listing \<Rightarrow> string list \<Rightarrow> (path \<times> bool) list" where
  "batch_entries d zs =
     concat (map (\<lambda>z. case ZipFile d z of Inr ms \<Rightarrow> archive_entries ms | Inl e \<Rightarrow> []) zs)"

definition no_conflict :: "(path \<times> bool) list \<Rightarrow> bool" where
  "no_conflict es =
     (\<forall>(p, data) \<in> set es. data \<longrightarrow>
        p \<noteq> [] \<and> (\<forall>(q, data') \<in> set es. prefix p q \<longrightarrow> q = p \<and> data'))"

definition valid_archives :: "listing \<Rightarrow> string list \<Rightarrow> bool" where
  "valid_archives d zs =
     (\<forall>z \<in> set zs. case ZipFile d z of Inr ms \<Rightarrow> testzip ms = Inr None | Inl e \<Rightarrow> False)"

definition file_entries :: "listing \<Rightarrow> string \<Rightarrow> nat" where
  "file_entries d z =
     (case ZipFile d z of
        Inr ms \<Rightarrow> length (filter (\<lambda>f. \<not> endswith f ''/'') (namelist ms))
      | Inl e \<Rightarrow> 0)"

text \<open>
  The invariant of the extraction folder under a set of members without conflict: every
  regular file in it is the target of a data member, every directory lies on the way to
  a member or is the target of a directory member.
\<close>

definition shift :: "(path \<times> bool) set \<Rightarrow> string \<Rightarrow> (path \<times> bool) set" where
  "shift E c = {(q, k). (c # q, k) \<in> E}"

definition within :: "(path \<times> bool) set \<Rightarrow> listing \<Rightarrow> bool" where
  "within E T \<longleftrightarrow>
     (\<forall>q x. lookup T q = Some (File x) \<longrightarrow> (q, True) \<in> E) \<and>
     (\<forall>q sub. q \<noteq> [] \<longrightarrow> lookup T q = Some (Dir sub) \<longrightarrow>
        (\<exists>q' k. (q', k) \<in> E \<and> prefix q q' \<and> (q' = q \<longrightarrow> \<not> k)))"

definition conflict_free :: "(path \<times> bool) set \<Rightarrow> bool" where
  "conflict_free E \<longleftrightarrow>
     (\<forall>p. (p, True) \<in> E \<longrightarrow> p \<noteq> [] \<and> (\<forall>q k. (q, k) \<in> E \<longrightarrow> prefix p q \<longrightarrow> q = p \<and> k))"

definition dest_within :: "(path \<times> bool) set \<Rightarrow> listing \<Rightarrow> bool" where
  "dest_within E d \<longleftrightarrow> (\<exists>T. map_of d extract_path = Some (Dir T) \<and> within E T)"

section \<open>Properties\<close>

subsection \<open>The fields of the state\<close>

lemma fs_print_line [simp]: "fs (print_line e s) = fs s"
  and total_print_line [simp]:
    "total_files_extracted (print_line e s) = total_files_extracted s"
  and opened_print_line [simp]: "opened (print_line e s) = opened s"
  and out_print_line [simp]: "out (print_line e s) = out s @ [e]"
  by (simp_all add: print_line_def)

lemma fs_acquire [simp]: "fs (acquire h s) = fs s"
  and total_acquire [simp]: "total_files_extracted (acquire h s) = total_files_extracted s"
  and opened_acquire [simp]: "opened (acquire h s) = h # opened s"
  and out_acquire [simp]: "out (acquire h s) = out s"
  by (simp_all add: acquire_def)

lemma fs_release [simp]: "fs (release h s) = fs s"
  and total_release [simp]: "total_files_extracted (release h s) = total_files_extracted s"
  and opened_release [simp]: "opened (release h s) = remove1 h (opened s)"
  and out_release [simp]: "out (release h s) = out s"
  by (simp_all add: release_def)

subsection \<open>Writes stay below the first component of their path\<close>

lemma write_at_frame:
  "write_at (c # p) w d = Inr d' \<Longrightarrow> n \<noteq> c \<Longrightarrow> map_of d' n = map_of d n"
  by (cases p; cases w)
     (auto simp: update_conv' split: option.splits node.splits sum.splits)

lemma read_member_simps [simp]:
  "read_member (Member n ok b) = (if ok then Inr b else Inl BadZipFile)"
  "read_member (Unreadable n e) = Inl e"
  by (simp_all add: read_member_def)

lemma getinfo_filename: "getinfo ms n = Some m \<Longrightarrow> filename m = n"
  by (auto simp: getinfo_def find_Some_iff)

lemma extract_member_write:
  assumes "extract_member ms c n d = Inr d'"
  shows "\<exists>m w. getinfo ms n = Some m \<and> write_at (c # arc_parts n) w d = Inr d' \<and>
           (if endswith n ''/'' then w = None else \<exists>b. w = Some b \<and> read_member m = Inr b)"
proof -
  from assms obtain m where m: "getinfo ms n = Some m"
    by (auto simp: extract_member_def split: option.splits)
  then have fn: "filename m = n"
    by (rule getinfo_filename)
  show ?thesis
  proof (cases "endswith n ''/''")
    case True
    with assms m fn have "write_at (c # arc_parts n) None d = Inr d'"
      by (simp add: extract_member_def)
    with m True show ?thesis by auto
  next
    case False
    with assms m fn obtain b where "read_member m = Inr b"
      and "write_at (c # arc_parts n) (Some b) d = Inr d'"
      by (auto simp: extract_member_def split: sum.splits)
    with m False show ?thesis by auto
  qed
qed

lemma extract_member_frame:
  "extract_member ms c x d = Inr d' \<Longrightarrow> n \<noteq> c \<Longrightarrow> map_of d' n = map_of d n"
  by (auto dest!: extract_member_write dest: write_at_frame)

lemma extract_each_frame:
  "n \<noteq> c \<Longrightarrow> map_of (fst (extract_each ms c ns d)) n = map_of d n"
  by (induction ns arbitrary: d) (auto split: sum.splits dest: extract_member_frame)

lemma ZipFile_cong: "map_of d item = map_of d' item \<Longrightarrow> ZipFile d item = ZipFile d' item"
  by (simp add: ZipFile_def)

subsection \<open>What a write leaves at a path\<close>

lemma lookup_Cons:
  "lookup d (c # cs) =
     (if cs = [] then map_of d c
      else (case map_of d c of Some (Dir sub) \<Rightarrow> lookup sub cs | _ \<Rightarrow> None))"
  by (cases cs) (auto split: option.splits node.splits)

lemma write_at_Cons:
  "write_at (c # cs) w d =
   (if cs = [] then
      (case w of
         None \<Rightarrow> (case map_of d c of
              None \<Rightarrow> Inr (AList.update c (Dir []) d)
            | Some (Dir _) \<Rightarrow> Inr d
            | Some (File _) \<Rightarrow> Inl OSError)
       | Some b \<Rightarrow> (case map_of d c of
              Some (Dir _) \<Rightarrow> Inl OSError
            | _ \<Rightarrow> Inr (AList.update c (File b) d)))
    else
     (case map_of d c of
        Some (File _) \<Rightarrow> Inl OSError
      | Some (Dir sub) \<Rightarrow>
          (case write_at cs w sub of
             Inl e \<Rightarrow> Inl e
           | Inr sub' \<Rightarrow> Inr (AList.update c (Dir sub') d))
      | None \<Rightarrow>
          (case write_at cs w [] of
             Inl e \<Rightarrow> Inl e
           | Inr sub' \<Rightarrow> Inr (AList.update c (Dir sub') d))))"
  by (cases cs; cases w) (auto split: option.splits node.splits sum.splits)

lemma write_at_hit: "write_at q (Some b) d = Inr d' \<Longrightarrow> lookup d' q = Some (File b)"
proof (induction q arbitrary: d d')
  case Nil
  then show ?case by simp
next
  case (Cons c cs)
  show ?case
  proof (cases "cs = []")
    case True
    with Cons.prems show ?thesis
      by (auto simp: update_conv' split: option.splits node.splits)
  next
    case False
    with Cons.prems Cons.IH show ?thesis
      by (auto simp: write_at_Cons lookup_Cons update_conv' split: option.splits node.splits sum.splits)
  qed
qed

lemma write_at_keep:
  "lookup d q = Some (File b) \<Longrightarrow> write_at q' w d = Inr d' \<Longrightarrow> q' \<noteq> q \<or> w = None \<Longrightarrow>
   lookup d' q = Some (File b)"
proof (induction q' arbitrary: d d' q)
  case Nil
  then show ?case by (cases w) simp_all
next
  case (Cons c cs)
  obtain c0 rest where q: "q = c0 # rest"
    using Cons.prems(1) by (cases q) simp_all
  show ?case
  proof (cases "cs = []")
    case True
    with Cons.prems q show ?thesis
      by (cases w) (auto simp: lookup_Cons update_conv' split: option.splits node.splits if_splits)
  next
    case False
    show ?thesis
    proof (cases "c0 = c")
      case neq: False
      from Cons.prems(2) have "map_of d' c0 = map_of d c0"
        using neq by (rule write_at_frame)
      with Cons.prems(1) q show ?thesis
        by (auto simp: lookup_Cons split: if_splits)
    next
      case eq: True
      with Cons.prems q False Cons.IH show ?thesis
        by (auto simp: write_at_Cons lookup_Cons update_conv' split: option.splits node.splits sum.splits if_splits)
    qed
  qed
qed

lemma write_at_over:
  "lookup d q = Some (File c) \<Longrightarrow> \<exists>d'. write_at q (Some b) d = Inr d'"
proof (induction q arbitrary: d)
  case Nil
  then show ?case by simp
next
  case (Cons x xs)
  show ?case
  proof (cases "xs = []")
    case True
    with Cons.prems show ?thesis by (auto split: option.splits node.splits)
  next
    case False
    with Cons.prems Cons.IH show ?thesis
      by (fastforce simp: write_at_Cons lookup_Cons split: option.splits node.splits sum.splits)
  qed
qed

subsection \<open>One pass of the loop, field by field\<close>

lemma fs_extract_archive:
  "fs (extract_archive item s) =
     (case ZipFile (fs s) item of
        Inl e \<Rightarrow> fs s
      | Inr ms \<Rightarrow> fst (extractall ms extract_path (fs s)))"
  by (simp add: extract_archive_def Let_def split: sum.splits prod.splits option.splits)

lemma fs_process_item:
  "fs (process_item item s) =
     (case ZipFile (fs s) item of
        Inl e \<Rightarrow> fs s
      | Inr ms \<Rightarrow>
          if testzip ms = Inr None then fst (extractall ms extract_path (fs s)) else fs s)"
  by (simp add: process_item_def fs_extract_archive Let_def split: sum.splits option.splits)

lemma total_extract_archive:
  "total_files_extracted (extract_archive item s) =
     (case ZipFile (fs s) item of
        Inl e \<Rightarrow> total_files_extracted s
      | Inr ms \<Rightarrow>
          (case snd (extractall ms extract_path (fs s)) of
             Some e \<Rightarrow> total_files_extracted s
           | None \<Rightarrow>
               total_files_extracted s
               + length (filter (\<lambda>f. \<not> endswith f ''/'') (namelist ms))))"
  by (simp add: extract_archive_def Let_def split: sum.splits prod.splits option.splits)

lemma total_process_item:
  "total_files_extracted (process_item item s) =
     (case ZipFile (fs s) item of
        Inl e \<Rightarrow> total_files_extracted s
      | Inr ms \<Rightarrow>
          if testzip ms = Inr None
          then (case snd (extractall ms extract_path (fs s)) of
                  Some e \<Rightarrow> total_files_extracted s
                | None \<Rightarrow>
                    total_files_extracted s
                    + length (filter (\<lambda>f. \<not> endswith f ''/'') (namelist ms)))
          else total_files_extracted s)"
  by (simp add: process_item_def total_extract_archive Let_def
           split: sum.splits option.splits)

lemma opened_extract_archive: "opened (extract_archive item s) = opened s"
  by (simp add: extract_archive_def Let_def split: sum.splits prod.splits option.splits)

lemma opened_process_item: "opened (process_item item s) = opened s"
  by (simp add: process_item_def opened_extract_archive Let_def split: sum.splits option.splits)

lemma process_item_frame:
  "n \<noteq> extract_path \<Longrightarrow> map_of (fs (process_item item s)) n = map_of (fs s) n"
  by (simp add: fs_process_item extractall_def extract_each_frame split: sum.splits)

lemma extract_loop_frame:
  "n \<noteq> extract_path \<Longrightarrow> map_of (fs (extract_loop items s)) n = map_of (fs s) n"
  by (induction items arbitrary: s) (simp_all add: process_item_frame)

lemma extract_loop_append:
  "extract_loop (xs @ ys) s = extract_loop ys (extract_loop xs s)"
  by (induction xs arbitrary: s) simp_all

lemma opened_extract_loop: "opened (extract_loop items s) = opened s"
  by (induction items arbitrary: s) (simp_all add: opened_process_item)

lemma extract_loop_cong:
  "fs s = fs t \<Longrightarrow> total_files_extracted s = total_files_extracted t \<Longrightarrow>
   fs (extract_loop items s) = fs (extract_loop items t) \<and>
   total_files_extracted (extract_loop items s) = total_files_extracted (extract_loop items t)"
proof (induction items arbitrary: s t)
  case Nil
  then show ?case by simp
next
  case (Cons item items)
  have "fs (process_item item s) = fs (process_item item t)"
    using Cons.prems by (simp add: fs_process_item split: sum.splits)
  moreover have "total_files_extracted (process_item item s)
      = total_files_extracted (process_item item t)"
    using Cons.prems by (simp add: total_process_item split: sum.splits option.splits)
  ultimately show ?case
    using Cons.IH [of "process_item item s" "process_item item t"] by simp
qed

subsection \<open>Strings\<close>

lemma lower_drop: "lower (drop k s) = drop k (lower s)"
  by (simp add: lower_def drop_map)

lemma lower_zip_suffix: "endswith n ''.zip'' \<Longrightarrow> endswith (lower n) ''.zip''"
proof -
  assume a: "endswith n ''.zip''"
  then have "drop (length n - length ''.zip'') n = ''.zip''"
    by (simp only: endswith_def)
  then have "lower (drop (length n - length ''.zip'') n) = lower ''.zip''"
    by (simp only:)
  then have "drop (length n - length ''.zip'') (lower n) = ''.zip''"
    by (simp add: lower_drop) (simp add: lower_def lower_char_def)
  moreover have "length (lower n) = length n"
    by (simp add: lower_def)
  ultimately show ?thesis
    using a by (simp add: endswith_def)
qed

subsection \<open>What the members of an archive leave\<close>

lemma process_item_bad:
  assumes "bad_archive (fs t) b"
  shows "process_item b t = t\<lparr>out := out t @ skip_lines (fs t) b\<rparr>"
  using assms
  by (auto simp: process_item_def bad_archive_def skip_lines_def Let_def print_line_def acquire_def release_def split: sum.splits)

lemma extract_each_split:
  "extract_each ms c ns d = (d', Some e) \<Longrightarrow>
   \<exists>before n rest. ns = before @ n # rest \<and> extract_each ms c before d = (d', None) \<and>
      extract_member ms c n d' = Inl e"
proof (induction ns arbitrary: d)
  case Nil
  then show ?case by simp
next
  case (Cons x xs)
  show ?case
  proof (cases "extract_member ms c x d")
    case (Inl e')
    with Cons.prems have "d' = d" "e' = e" by simp_all
    with Inl have "x # xs = [] @ x # xs \<and> extract_each ms c [] d = (d', None) \<and>
        extract_member ms c x d' = Inl e"
      by simp
    then show ?thesis by blast
  next
    case (Inr d1)
    with Cons.prems have "extract_each ms c xs d1 = (d', Some e)" by simp
    from Cons.IH [OF this] obtain before n rest where
      "xs = before @ n # rest" "extract_each ms c before d1 = (d', None)"
      "extract_member ms c n d' = Inl e"
      by blast
    with Inr have "x # xs = (x # before) @ n # rest \<and>
        extract_each ms c (x # before) d = (d', None) \<and> extract_member ms c n d' = Inl e"
      by simp
    then show ?thesis by blast
  qed
qed

lemma extract_member_keep:
  assumes "lookup d (c # p) = Some (File b)"
    and "extract_member ms c n d = Inr d'"
    and "endswith n ''/'' \<or> arc_parts n \<noteq> p"
  shows "lookup d' (c # p) = Some (File b)"
proof -
  from extract_member_write [OF assms(2)] obtain w where
    w: "write_at (c # arc_parts n) w d = Inr d'" and k: "endswith n ''/'' \<longrightarrow> w = None"
    by (auto split: if_splits)
  show ?thesis
    using assms(1) w
  proof (rule write_at_keep)
    show "c # arc_parts n \<noteq> c # p \<or> w = None"
      using assms(3) k by auto
  qed
qed

lemma extract_each_keep:
  "lookup d (c # p) = Some (File b) \<Longrightarrow>
   \<forall>n \<in> set ns. endswith n ''/'' \<or> arc_parts n \<noteq> p \<Longrightarrow>
   lookup (fst (extract_each ms c ns d)) (c # p) = Some (File b)"
proof (induction ns arbitrary: d)
  case Nil
  then show ?case by simp
next
  case (Cons n ns)
  show ?case
  proof (cases "extract_member ms c n d")
    case (Inl e)
    with Cons.prems show ?thesis by simp
  next
    case (Inr d1)
    have "lookup d1 (c # p) = Some (File b)"
      using Cons.prems(1) Inr
      by (rule extract_member_keep) (use Cons.prems(2) in simp)
    then have "lookup (fst (extract_each ms c ns d1)) (c # p) = Some (File b)"
      by (rule Cons.IH) (use Cons.prems(2) in simp)
    with Inr show ?thesis by simp
  qed
qed

lemma extract_member_hit:
  assumes "extract_member ms c n d = Inr d'" and "\<not> endswith n ''/''"
    and "getinfo ms n = Some m" and "read_member m = Inr b"
  shows "lookup d' (c # arc_parts n) = Some (File b)"
proof -
  from extract_member_write [OF assms(1)] assms(2-4)
  have "write_at (c # arc_parts n) (Some b) d = Inr d'"
    by auto
  then show ?thesis by (rule write_at_hit)
qed

lemma find_snoc:
  "find P (xs @ [y]) = (case find P xs of None \<Rightarrow> (if P y then Some y else None) | Some x \<Rightarrow> Some x)"
  by (induction xs) simp_all

lemma extract_each_written:
  "extract_each ms c ns d = (d', None) \<Longrightarrow> written_by ms ns p = Some b \<Longrightarrow>
   lookup d' (c # p) = Some (File b)"
proof (induction ns arbitrary: d)
  case Nil
  then show ?case by (simp add: written_by_def)
next
  case (Cons n ns)
  from Cons.prems(1) obtain d1 where d1: "extract_member ms c n d = Inr d1"
    and rest: "extract_each ms c ns d1 = (d', None)"
    by (auto split: sum.splits)
  let ?P = "\<lambda>n. \<not> endswith n ''/'' \<and> arc_parts n = p"
  show ?case
  proof (cases "find ?P (rev ns)")
    case (Some n')
    with Cons.prems(2) have "written_by ms ns p = Some b"
      by (simp add: written_by_def find_snoc)
    with rest show ?thesis by (rule Cons.IH)
  next
    case None
    with Cons.prems(2) obtain m where pn: "?P n" and m: "getinfo ms n = Some m"
      and b: "read_member m = Inr b"
      by (auto simp: written_by_def find_snoc split: if_splits option.splits sum.splits)
    have "lookup d1 (c # p) = Some (File b)"
      using extract_member_hit [OF d1 _ m b] pn by simp
    moreover have "\<forall>n \<in> set ns. endswith n ''/'' \<or> arc_parts n \<noteq> p"
      using None by (auto simp: find_None_iff)
    ultimately have "lookup (fst (extract_each ms c ns d1)) (c # p) = Some (File b)"
      by (rule extract_each_keep)
    with rest show ?thesis by simp
  qed
qed


subsection \<open>The merge, field by field\<close>

lemma add_pdfs_Cons:
  "add_pdfs (c # cands) m s =
     (if appends (fs s) c
      then add_pdfs cands (m @ pages_of (fs s) c) (print_line (Adding (last c)) s)
      else add_pdfs cands m
             (print_line (ErrAdding c PdfReadError) (print_line (Adding (last c)) s)))"
  by (auto simp: appends_def pages_of_def Let_def
           split: option.splits node.splits content.splits)

lemma pages_of_fails: "\<not> appends d p \<Longrightarrow> pages_of d p = []"
  by (auto simp: appends_def pages_of_def split: option.splits node.splits content.splits)

lemma add_pdfs_fields:
  "fs (snd (add_pdfs cands m s)) = fs s \<and>
   opened (snd (add_pdfs cands m s)) = opened s \<and>
   total_files_extracted (snd (add_pdfs cands m s)) = total_files_extracted s"
  by (induction cands arbitrary: m s) (simp_all add: add_pdfs_Cons del: add_pdfs.simps(2))

lemma add_pdfs_pages:
  "fst (add_pdfs cands m s) = m @ concat (map (pages_of (fs s)) cands)"
proof (induction cands arbitrary: m s)
  case Nil
  then show ?case by simp
next
  case (Cons c cands)
  show ?case
    by (simp add: add_pdfs_Cons Cons.IH pages_of_fails del: add_pdfs.simps(2))
qed

lemma add_pdfs_out_prefix:
  "\<exists>l. out (snd (add_pdfs cands m s)) = out s @ l"
proof (induction cands arbitrary: m s)
  case Nil
  then show ?case by simp
next
  case (Cons c cands)
  show ?case
  proof (cases "appends (fs s) c")
    case True
    from Cons.IH [of "m @ pages_of (fs s) c" "print_line (Adding (last c)) s"] True
    show ?thesis by (auto simp: add_pdfs_Cons simp del: add_pdfs.simps(2))
  next
    case False
    from Cons.IH [of m "print_line (ErrAdding c PdfReadError) (print_line (Adding (last c)) s)"]
      False
    show ?thesis by (auto simp: add_pdfs_Cons simp del: add_pdfs.simps(2))
  qed
qed

lemma add_pdfs_err:
  "pdf \<in> set cands \<Longrightarrow> \<not> appends (fs s) pdf \<Longrightarrow>
   ErrAdding pdf PdfReadError \<in> set (out (snd (add_pdfs cands m s)))"
proof (induction cands arbitrary: m s)
  case Nil
  then show ?case by simp
next
  case (Cons c cands)
  show ?case
  proof (cases "pdf = c")
    case True
    let ?s1 = "print_line (ErrAdding c PdfReadError) (print_line (Adding (last c)) s)"
    from True Cons.prems(2) have step: "add_pdfs (c # cands) m s = add_pdfs cands m ?s1"
      by (simp add: add_pdfs_Cons del: add_pdfs.simps(2))
    obtain l where "out (snd (add_pdfs cands m ?s1)) = out ?s1 @ l"
      using add_pdfs_out_prefix by blast
    with step True show ?thesis by simp
  next
    case False
    with Cons.prems have "pdf \<in> set cands" by simp
    then show ?thesis
      using Cons.IH Cons.prems(2)
      by (simp add: add_pdfs_Cons del: add_pdfs.simps(2))
  qed
qed

lemma combine_pdfs_unfold:
  "combine_pdfs directory s =
     (if pdf_candidates (fs s) directory = [] then print_line NoPdfFound s
      else
        (let pdf_files = sort_key join_slash (pdf_candidates (fs s) directory);
             r = add_pdfs pdf_files []
                   (acquire MergerHandle
                      (print_line (FoundPdfs (length (pdf_candidates (fs s) directory))) s));
             s4 = print_line Writing (snd r)
         in case write_at [directory, ''merged.pdf''] (Some (Pdf (fst r))) (fs s4) of
              Inl e \<Rightarrow> print_line (ErrCombining e) s4
            | Inr d \<Rightarrow>
                print_line (SuccessCombined (length pdf_files))
                  (release MergerHandle (s4\<lparr>fs := d\<rparr>))))"
  by (simp add: combine_pdfs_def pdf_candidates_def Let_def case_prod_beta
           del: write_at.simps)

lemma fs_combine_pdfs:
  "fs (combine_pdfs directory s) =
     (if pdf_candidates (fs s) directory = [] then fs s
      else (case write_at [directory, ''merged.pdf'']
                   (Some (Pdf (concat (map (pages_of (fs s))
                                        (sort_key join_slash (pdf_candidates (fs s) directory))))))
                   (fs s) of
              Inl e \<Rightarrow> fs s
            | Inr d \<Rightarrow> d))"
  by (simp add: combine_pdfs_unfold Let_def add_pdfs_fields add_pdfs_pages
           split: sum.splits del: write_at.simps)

lemma opened_combine_pdfs:
  "opened (combine_pdfs directory s) =
     (if pdf_candidates (fs s) directory = [] then opened s
      else (case write_at [directory, ''merged.pdf'']
                   (Some (Pdf (concat (map (pages_of (fs s))
                                        (sort_key join_slash (pdf_candidates (fs s) directory))))))
                   (fs s) of
              Inl e \<Rightarrow> MergerHandle # opened s
            | Inr d \<Rightarrow> opened s))"
  by (simp add: combine_pdfs_unfold Let_def add_pdfs_fields add_pdfs_pages
           split: sum.splits del: write_at.simps)

subsection \<open>A bad archive does not stop the batch\<close>

text \<open>
  C1: an archive that is no well-formed ZIP file or fails the integrity check is skipped
  with a printed reason, and the archives after it are processed. The archive \<open>b\<close> is
  bad in any of the ways the loop meets: opening it raises (the file is no ZIP archive,
  line 149, or cannot be opened, line 170), \<^verbatim>\<open>testzip\<close> names a member whose check
  fails (line 146), or \<^verbatim>\<open>testzip\<close> itself raises on a member it cannot read (a damaged
  compressed stream, an encrypted member, a compression method that is not supported;
  line 170). Wherever \<open>b\<close> stands in the batch (\<open>xs\<close> before it, \<open>ys\<close> after it),
  its pass through the loop only prints the lines that name the reason; the files, the
  counter and the handles stay as they were, the loop goes on, and the files and the
  counter at the end are those of the batch without the bad archive.
\<close>

theorem bad_archive_skipped:
  assumes "bad_archive (fs s) b" and "b \<noteq> extract_path"
  shows "process_item b (extract_loop xs s)
           = (extract_loop xs s)\<lparr>out := out (extract_loop xs s) @ skip_lines (fs s) b\<rparr> \<and>
         skip_lines (fs s) b \<noteq> [] \<and>
         fs (extract_loop (xs @ b # ys) s) = fs (extract_loop (xs @ ys) s) \<and>
         total_files_extracted (extract_loop (xs @ b # ys) s)
           = total_files_extracted (extract_loop (xs @ ys) s)"
proof -
  let ?t = "extract_loop xs s"
  have same: "ZipFile (fs ?t) b = ZipFile (fs s) b"
    using assms(2) by (intro ZipFile_cong extract_loop_frame)
  then have bad: "bad_archive (fs ?t) b"
    using assms(1) by (simp add: bad_archive_def)
  have step: "process_item b ?t = ?t\<lparr>out := out ?t @ skip_lines (fs s) b\<rparr>"
    using process_item_bad [OF bad] same by (simp add: skip_lines_def)
  have "fs (process_item b ?t) = fs ?t"
    and "total_files_extracted (process_item b ?t) = total_files_extracted ?t"
    by (simp_all add: step)
  then have "fs (extract_loop ys (process_item b ?t)) = fs (extract_loop ys ?t) \<and>
      total_files_extracted (extract_loop ys (process_item b ?t))
        = total_files_extracted (extract_loop ys ?t)"
    by (rule extract_loop_cong)
  then show ?thesis
    using step by (simp add: extract_loop_append skip_lines_def split: sum.splits)
qed

theorem bad_archive_skipped_witness:
  "bad_archive [(''a.zip'', File (Zip [Member ''a.txt'' True (Blob ''A'')])),
                (''n.zip'', File (Blob ''no archive'')),
                (''b.zip'', File (Zip [Member ''b.txt'' False (Blob ''B'')])),
                (''c.zip'', File (Zip [Unreadable ''c.txt'' ZlibError])),
                (''d.zip'', File (Zip [Member ''d.txt'' True (Blob ''D'')])),
                (''combined_extraction'', Dir [])] ''n.zip'' \<and>
   bad_archive [(''a.zip'', File (Zip [Member ''a.txt'' True (Blob ''A'')])),
                (''n.zip'', File (Blob ''no archive'')),
                (''b.zip'', File (Zip [Member ''b.txt'' False (Blob ''B'')])),
                (''c.zip'', File (Zip [Unreadable ''c.txt'' ZlibError])),
                (''d.zip'', File (Zip [Member ''d.txt'' True (Blob ''D'')])),
                (''combined_extraction'', Dir [])] ''b.zip'' \<and>
   bad_archive [(''a.zip'', File (Zip [Member ''a.txt'' True (Blob ''A'')])),
                (''n.zip'', File (Blob ''no archive'')),
                (''b.zip'', File (Zip [Member ''b.txt'' False (Blob ''B'')])),
                (''c.zip'', File (Zip [Unreadable ''c.txt'' ZlibError])),
                (''d.zip'', File (Zip [Member ''d.txt'' True (Blob ''D'')])),
                (''combined_extraction'', Dir [])] ''c.zip'' \<and>
   process_item ''c.zip''
     \<lparr>fs = [(''a.zip'', File (Zip [Member ''a.txt'' True (Blob ''A'')])),
            (''n.zip'', File (Blob ''no archive'')),
            (''b.zip'', File (Zip [Member ''b.txt'' False (Blob ''B'')])),
            (''c.zip'', File (Zip [Unreadable ''c.txt'' ZlibError])),
            (''d.zip'', File (Zip [Member ''d.txt'' True (Blob ''D'')])),
            (''combined_extraction'', Dir [])],
      total_files_extracted = 0, out = [], opened = []\<rparr>
   = \<lparr>fs = [(''a.zip'', File (Zip [Member ''a.txt'' True (Blob ''A'')])),
            (''n.zip'', File (Blob ''no archive'')),
            (''b.zip'', File (Zip [Member ''b.txt'' False (Blob ''B'')])),
            (''c.zip'', File (Zip [Unreadable ''c.txt'' ZlibError])),
            (''d.zip'', File (Zip [Member ''d.txt'' True (Blob ''D'')])),
            (''combined_extraction'', Dir [])],
      total_files_extracted = 0,
      out = [Processing ''c.zip'', ErrExtracting ''c.zip'' ZlibError], opened = []\<rparr> \<and>
   fs (extract_loop [''a.zip'', ''n.zip'', ''b.zip'', ''c.zip'', ''d.zip'']
        \<lparr>fs = [(''a.zip'', File (Zip [Member ''a.txt'' True (Blob ''A'')])),
               (''n.zip'', File (Blob ''no archive'')),
               (''b.zip'', File (Zip [Member ''b.txt'' False (Blob ''B'')])),
               (''c.zip'', File (Zip [Unreadable ''c.txt'' ZlibError])),
               (''d.zip'', File (Zip [Member ''d.txt'' True (Blob ''D'')])),
               (''combined_extraction'', Dir [])],
         total_files_extracted = 0, out = [], opened = []\<rparr>)
     = [(''a.zip'', File (Zip [Member ''a.txt'' True (Blob ''A'')])),
        (''n.zip'', File (Blob ''no archive'')),
        (''b.zip'', File (Zip [Member ''b.txt'' False (Blob ''B'')])),
        (''c.zip'', File (Zip [Unreadable ''c.txt'' ZlibError])),
        (''d.zip'', File (Zip [Member ''d.txt'' True (Blob ''D'')])),
        (''combined_extraction'',
           Dir [(''a.txt'', File (Blob ''A'')), (''d.txt'', File (Blob ''D''))])]"
proof -
  let ?d = "[(''a.zip'', File (Zip [Member ''a.txt'' True (Blob ''A'')])),
             (''n.zip'', File (Blob ''no archive'')),
             (''b.zip'', File (Zip [Member ''b.txt'' False (Blob ''B'')])),
             (''c.zip'', File (Zip [Unreadable ''c.txt'' ZlibError])),
             (''d.zip'', File (Zip [Member ''d.txt'' True (Blob ''D'')])),
             (''combined_extraction'', Dir [])]"
  let ?s = "\<lparr>fs = ?d, total_files_extracted = 0, out = [], opened = []\<rparr>"
  have n: "bad_archive (fs ?s) ''n.zip''" and b: "bad_archive (fs ?s) ''b.zip''"
    and c: "bad_archive (fs ?s) ''c.zip''"
    by (simp_all add: bad_archive_def ZipFile_def testzip_def getinfo_def)
  have ne: "''n.zip'' \<noteq> extract_path" "''b.zip'' \<noteq> extract_path"
    "''c.zip'' \<noteq> extract_path"
    by (simp_all add: extract_path_def)
  have "fs (extract_loop ([''a.zip''] @ ''n.zip'' # [''b.zip'', ''c.zip'', ''d.zip'']) ?s)
      = fs (extract_loop ([''a.zip''] @ [''b.zip'', ''c.zip'', ''d.zip'']) ?s)"
    using bad_archive_skipped [OF n ne(1), of "[''a.zip'']" "[''b.zip'', ''c.zip'', ''d.zip'']"]
    by blast
  also have "\<dots> = fs (extract_loop ([''a.zip''] @ [''c.zip'', ''d.zip'']) ?s)"
    using bad_archive_skipped [OF b ne(2), of "[''a.zip'']" "[''c.zip'', ''d.zip'']"]
    by blast
  also have "\<dots> = fs (extract_loop ([''a.zip''] @ [''d.zip'']) ?s)"
    using bad_archive_skipped [OF c ne(3), of "[''a.zip'']" "[''d.zip'']"]
    by blast
  also have "\<dots>
     = [(''a.zip'', File (Zip [Member ''a.txt'' True (Blob ''A'')])),
        (''n.zip'', File (Blob ''no archive'')),
        (''b.zip'', File (Zip [Member ''b.txt'' False (Blob ''B'')])),
        (''c.zip'', File (Zip [Unreadable ''c.txt'' ZlibError])),
        (''d.zip'', File (Zip [Member ''d.txt'' True (Blob ''D'')])),
        (''combined_extraction'',
           Dir [(''a.txt'', File (Blob ''A'')), (''d.txt'', File (Blob ''D''))])]"
    by (simp add: fs_process_item ZipFile_def testzip_def getinfo_def extractall_def
                  namelist_def extract_member_def arc_parts_def endswith_def extract_path_def)
  finally have all: "fs (extract_loop [''a.zip'', ''n.zip'', ''b.zip'', ''c.zip'', ''d.zip''] ?s)
     = [(''a.zip'', File (Zip [Member ''a.txt'' True (Blob ''A'')])),
        (''n.zip'', File (Blob ''no archive'')),
        (''b.zip'', File (Zip [Member ''b.txt'' False (Blob ''B'')])),
        (''c.zip'', File (Zip [Unreadable ''c.txt'' ZlibError])),
        (''d.zip'', File (Zip [Member ''d.txt'' True (Blob ''D'')])),
        (''combined_extraction'',
           Dir [(''a.txt'', File (Blob ''A'')), (''d.txt'', File (Blob ''D''))])]"
    by simp
  have "process_item ''c.zip'' (extract_loop [] ?s)
      = (extract_loop [] ?s)\<lparr>out := out (extract_loop [] ?s) @ skip_lines (fs ?s) ''c.zip''\<rparr>"
    using bad_archive_skipped [OF c ne(3), of "[]" "[]"] by blast
  then have one: "process_item ''c.zip'' ?s
      = \<lparr>fs = ?d, total_files_extracted = 0,
         out = [Processing ''c.zip'', ErrExtracting ''c.zip'' ZlibError], opened = []\<rparr>"
    by (simp add: skip_lines_def ZipFile_def testzip_def getinfo_def)
  show ?thesis
    using n b c one all by simp
qed

subsection \<open>An archive that fails half way\<close>

text \<open>
  C10: when the integrity check of an archive has passed and its extraction raises, the
  loop prints the error and goes on with the files as the extraction left them: the
  members before the failing one are extracted, and the data they wrote is in the
  extraction folder. Nothing is rolled back; the counter is not advanced.
\<close>

theorem partial_extraction_stays:
  assumes "ZipFile (fs s) item = Inr ms" and "testzip ms = Inr None"
    and "extractall ms extract_path (fs s) = (d', Some e)"
  shows "process_item item s
           = s\<lparr>fs := d',
               out := out s @ [Processing item, ZipValid True, ZipContains (length (namelist ms)),
                               ErrExtracting item e]\<rparr> \<and>
         (\<exists>before n rest.
             namelist ms = before @ n # rest \<and>
             extract_each ms extract_path before (fs s) = (d', None) \<and>
             extract_member ms extract_path n d' = Inl e \<and>
             (\<forall>p b. written_by ms before p = Some b \<longrightarrow>
                    lookup d' (extract_path # p) = Some (File b)))"
proof -
  have "process_item item s
           = s\<lparr>fs := d',
               out := out s @ [Processing item, ZipValid True, ZipContains (length (namelist ms)),
                               ErrExtracting item e]\<rparr>"
    using assms
    by (simp add: process_item_def extract_archive_def Let_def print_line_def acquire_def
                  release_def)
  moreover from assms(3) obtain before n rest where
    sp: "namelist ms = before @ n # rest"
        "extract_each ms extract_path before (fs s) = (d', None)"
        "extract_member ms extract_path n d' = Inl e"
    unfolding extractall_def by (blast dest: extract_each_split)
  have "\<forall>p b. written_by ms before p = Some b \<longrightarrow>
                    lookup d' (extract_path # p) = Some (File b)"
    using sp(2) by (blast intro: extract_each_written)
  ultimately show ?thesis
    using sp by blast
qed

theorem partial_extraction_stays_witness:
  "process_item ''x.zip''
     \<lparr>fs = [(''x.zip'', File (Zip [Member ''a.txt'' True (Blob ''A''),
                                     Member ''a.txt/b'' True (Blob ''B'')])),
            (''combined_extraction'', Dir [])],
      total_files_extracted = 0, out = [], opened = []\<rparr>
   = \<lparr>fs = [(''x.zip'', File (Zip [Member ''a.txt'' True (Blob ''A''),
                                       Member ''a.txt/b'' True (Blob ''B'')])),
              (''combined_extraction'', Dir [(''a.txt'', File (Blob ''A''))])],
        total_files_extracted = 0,
        out = [Processing ''x.zip'', ZipValid True, ZipContains 2,
               ErrExtracting ''x.zip'' OSError],
        opened = []\<rparr>"
proof -
  let ?ms = "[Member ''a.txt'' True (Blob ''A''), Member ''a.txt/b'' True (Blob ''B'')]"
  let ?s = "\<lparr>fs = [(''x.zip'', File (Zip ?ms)), (''combined_extraction'', Dir [])],
             total_files_extracted = 0, out = [], opened = []\<rparr>"
  let ?d = "[(''x.zip'', File (Zip ?ms)),
             (''combined_extraction'', Dir [(''a.txt'', File (Blob ''A''))])]"
  have z: "ZipFile (fs ?s) ''x.zip'' = Inr ?ms"
    by (simp add: ZipFile_def)
  have t: "testzip ?ms = Inr None"
    by (simp add: testzip_def getinfo_def)
  have x: "extractall ?ms extract_path (fs ?s) = (?d, Some OSError)"
    by (simp add: extractall_def namelist_def extract_member_def getinfo_def arc_parts_def
                  endswith_def extract_path_def)
  from partial_extraction_stays [OF z t x] show ?thesis
    by (simp add: namelist_def)
qed

subsection \<open>Evaluating a run\<close>

lemmas setup_eval = batch_unzip_def check_permissions_def find_zip_files_def listdir_def
  isfile_def glob_zip_def lower_def lower_char_def endswith_def extract_and_merge_def
  recreate_def Let_def

lemmas loop_eval = fs_process_item total_process_item opened_process_item ZipFile_def
  testzip_def getinfo_def extractall_def namelist_def extract_member_def arc_parts_def
  endswith_def extract_path_def

lemmas run_eval = process_item_def extract_archive_def print_line_def acquire_def release_def
  ZipFile_def testzip_def getinfo_def extractall_def namelist_def extract_member_def arc_parts_def
  endswith_def extract_path_def

lemmas walk_eval = pdf_candidates_def files_below_def walk_at_def walk.simps lower_def lower_char_def
  endswith_def extract_path_def

lemma candidates_dir:
  assumes "pdf_candidates d directory \<noteq> []"
  shows "\<exists>sub. map_of d directory = Some (Dir sub)"
proof (cases "map_of d directory")
  case None
  with assms show ?thesis
    by (simp add: pdf_candidates_def files_below_def walk_at_def)
next
  case (Some a)
  with assms show ?thesis
    by (cases a) (simp_all add: pdf_candidates_def files_below_def walk_at_def)
qed

lemma write_merged:
  assumes "map_of d directory = Some (Dir sub)"
  shows "write_at [directory, ''merged.pdf''] (Some c) d =
     (case lookup d [directory, ''merged.pdf''] of
        Some (Dir x) \<Rightarrow> Inl OSError
      | _ \<Rightarrow> Inr (AList.update directory (Dir (AList.update ''merged.pdf'' (File c) sub)) d))"
  using assms by (auto split: option.splits node.splits)

lemma lookup_merged:
  "lookup (AList.update directory (Dir (AList.update ''merged.pdf'' (File c) sub)) d)
     [directory, ''merged.pdf''] = Some (File c)"
  by (simp add: update_conv')

lemma sum_list_sort_key:
  fixes f :: "'a \<Rightarrow> nat"
  shows "sum_list (map f (sort_key k xs)) = sum_list (map f xs)"
proof -
  have "sum_mset (image_mset f (mset (sort_key k xs))) = sum_mset (image_mset f (mset xs))"
    by simp
  then show ?thesis
    by (simp only: mset_map [symmetric] sum_mset_sum_list)
qed

lemma out_combine_pdfs_failed:
  assumes "pdf_candidates (fs s) directory \<noteq> []"
    and "lookup (fs s) [directory, ''merged.pdf''] = Some (Dir x)"
  shows "fs (combine_pdfs directory s) = fs s \<and>
         opened (combine_pdfs directory s) = MergerHandle # opened s \<and>
         (\<exists>l. out (combine_pdfs directory s) = l @ [ErrCombining OSError])"
proof -
  obtain sub where sub: "map_of (fs s) directory = Some (Dir sub)"
    using candidates_dir [OF assms(1)] by blast
  show ?thesis
    using assms
    by (simp add: combine_pdfs_unfold Let_def add_pdfs_fields write_merged [OF sub]
             del: write_at.simps lookup.simps)
qed

lemma fs_combine_pdfs_done:
  assumes "pdf_candidates (fs s) directory \<noteq> []"
    and "\<forall>x. lookup (fs s) [directory, ''merged.pdf''] \<noteq> Some (Dir x)"
  shows "lookup (fs (combine_pdfs directory s)) [directory, ''merged.pdf'']
           = Some (File (Pdf (concat (map (pages_of (fs s))
                (sort_key join_slash (pdf_candidates (fs s) directory))))))"
proof -
  obtain sub where sub: "map_of (fs s) directory = Some (Dir sub)"
    using candidates_dir [OF assms(1)] by blast
  show ?thesis
    using assms
    by (simp add: fs_combine_pdfs write_merged [OF sub] lookup_merged
             split: option.splits node.splits del: write_at.simps lookup.simps)
qed

lemma concat_pages_appends:
  "concat (map (pages_of d) (filter (appends d) xs)) = concat (map (pages_of d) xs)"
  by (induction xs) (simp_all add: pages_of_fails)

lemma combine_pdfs_err:
  assumes "pdf \<in> set (pdf_candidates (fs s) directory)" and "\<not> appends (fs s) pdf"
  shows "ErrAdding pdf PdfReadError \<in> set (out (combine_pdfs directory s))"
proof -
  let ?cands = "pdf_candidates (fs s) directory"
  let ?s2 = "acquire MergerHandle (print_line (FoundPdfs (length ?cands)) s)"
  let ?r = "add_pdfs (sort_key join_slash ?cands) [] ?s2"
  have ne: "?cands \<noteq> []"
    using assms(1) by auto
  have "pdf \<in> set (sort_key join_slash ?cands)" and "\<not> appends (fs ?s2) pdf"
    using assms by simp_all
  then have "ErrAdding pdf PdfReadError \<in> set (out (snd ?r))"
    by (rule add_pdfs_err)
  then show ?thesis
    using ne
    by (simp add: combine_pdfs_unfold Let_def split: sum.splits del: write_at.simps)
qed

subsection \<open>Order and pages of the merged document\<close>

text \<open>
  C4, as stated: with at least one PDF candidate the merged document holds the pages of
  the candidates. It does not when the output path is taken by a directory: the archive
  below holds \<^verbatim>\<open>a.pdf\<close> and a folder \<^verbatim>\<open>merged.pdf/\<close>; one candidate is found, the write
  of \<^verbatim>\<open>merged.pdf\<close> raises, the handler of line 70 prints the error, and the run ends
  with no merged document.
\<close>

theorem merge_write_fails_counterexample:
  "pdf_candidates
      [(''x.zip'', File (Zip [Member ''a.pdf'' True (Pdf [''a1'']),
                              Member ''merged.pdf/'' True (Blob [])])),
       (''combined_extraction'',
          Dir [(''a.pdf'', File (Pdf [''a1''])), (''merged.pdf'', Dir [])])]
      ''combined_extraction''
     = [[''combined_extraction'', ''a.pdf'']] \<and>
   after (batch_unzip True
      \<lparr>target = Some (Dir [(''x.zip'', File (Zip [Member ''a.pdf'' True (Pdf [''a1'']),
                                                  Member ''merged.pdf/'' True (Blob [])]))]),
       r_ok = True, w_ok = True, x_ok = True\<rparr>)
     = Some (Dir [(''x.zip'', File (Zip [Member ''a.pdf'' True (Pdf [''a1'']),
                                         Member ''merged.pdf/'' True (Blob [])])),
                  (''combined_extraction'',
                     Dir [(''a.pdf'', File (Pdf [''a1''])), (''merged.pdf'', Dir [])])])"
proof -
  have c: "pdf_candidates
      [(''x.zip'', File (Zip [Member ''a.pdf'' True (Pdf [''a1'']),
                              Member ''merged.pdf/'' True (Blob [])])),
       (''combined_extraction'',
          Dir [(''a.pdf'', File (Pdf [''a1''])), (''merged.pdf'', Dir [])])]
      ''combined_extraction''
     = [[''combined_extraction'', ''a.pdf'']]"
    by (simp add: walk_eval)
  moreover have "after (batch_unzip True
      \<lparr>target = Some (Dir [(''x.zip'', File (Zip [Member ''a.pdf'' True (Pdf [''a1'']),
                                                  Member ''merged.pdf/'' True (Blob [])]))]),
       r_ok = True, w_ok = True, x_ok = True\<rparr>)
     = Some (Dir [(''x.zip'', File (Zip [Member ''a.pdf'' True (Pdf [''a1'']),
                                         Member ''merged.pdf/'' True (Blob [])])),
                  (''combined_extraction'',
                     Dir [(''a.pdf'', File (Pdf [''a1''])), (''merged.pdf'', Dir [])])])"
    by (simp add: setup_eval) (simp add: fs_combine_pdfs loop_eval)
  ultimately show ?thesis
    by (rule conjI)
qed

text \<open>
  C4, amended: without a PDF candidate \<^verbatim>\<open>combine_pdfs\<close> only prints that none was found
  and changes nothing. With candidates it appends them in ascending order of their path
  strings (a permutation of the candidates, sorted); when \<^verbatim>\<open>merged.pdf\<close> in the folder
  is not a directory, the file written there holds the pages of the candidates in that
  order, a candidate that cannot be appended giving none, so that its page count is the
  sum of the page counts; when it is a directory, the write error is caught and printed
  and the folder stays as it was.
\<close>

theorem merge_order_and_pages:
  "(pdf_candidates (fs s) directory = [] \<longrightarrow>
       combine_pdfs directory s = print_line NoPdfFound s) \<and>
   (pdf_candidates (fs s) directory \<noteq> [] \<longrightarrow>
       sorted (map join_slash (sort_key join_slash (pdf_candidates (fs s) directory))) \<and>
       mset (sort_key join_slash (pdf_candidates (fs s) directory))
         = mset (pdf_candidates (fs s) directory) \<and>
       ((\<forall>x. lookup (fs s) [directory, ''merged.pdf''] \<noteq> Some (Dir x)) \<longrightarrow>
          lookup (fs (combine_pdfs directory s)) [directory, ''merged.pdf'']
            = Some (File (Pdf (concat (map (pages_of (fs s))
                 (sort_key join_slash (pdf_candidates (fs s) directory)))))) \<and>
          length (concat (map (pages_of (fs s))
                 (sort_key join_slash (pdf_candidates (fs s) directory))))
            = sum_list (map (\<lambda>p. length (pages_of (fs s) p)) (pdf_candidates (fs s) directory))) \<and>
       ((\<exists>x. lookup (fs s) [directory, ''merged.pdf''] = Some (Dir x)) \<longrightarrow>
          fs (combine_pdfs directory s) = fs s \<and>
          (\<exists>l. out (combine_pdfs directory s) = l @ [ErrCombining OSError])))"
proof (intro conjI impI)
  assume "pdf_candidates (fs s) directory = []"
  then show "combine_pdfs directory s = print_line NoPdfFound s"
    by (simp add: combine_pdfs_unfold)
next
  show "sorted (map join_slash (sort_key join_slash (pdf_candidates (fs s) directory)))"
    by (rule sorted_sort_key)
  show "mset (sort_key join_slash (pdf_candidates (fs s) directory))
         = mset (pdf_candidates (fs s) directory)"
    by simp
next
  assume "pdf_candidates (fs s) directory \<noteq> []"
    and "\<forall>x. lookup (fs s) [directory, ''merged.pdf''] \<noteq> Some (Dir x)"
  then show "lookup (fs (combine_pdfs directory s)) [directory, ''merged.pdf'']
            = Some (File (Pdf (concat (map (pages_of (fs s))
                 (sort_key join_slash (pdf_candidates (fs s) directory))))))"
    by (rule fs_combine_pdfs_done)
next
  show "length (concat (map (pages_of (fs s))
                 (sort_key join_slash (pdf_candidates (fs s) directory))))
            = sum_list (map (\<lambda>p. length (pages_of (fs s) p)) (pdf_candidates (fs s) directory))"
    using sum_list_sort_key [of "\<lambda>p. length (pages_of (fs s) p)" join_slash]
    by (simp add: length_concat comp_def)
next
  assume c: "pdf_candidates (fs s) directory \<noteq> []"
    and "\<exists>x. lookup (fs s) [directory, ''merged.pdf''] = Some (Dir x)"
  then obtain x where "lookup (fs s) [directory, ''merged.pdf''] = Some (Dir x)"
    by blast
  with c show "fs (combine_pdfs directory s) = fs s"
    and "\<exists>l. out (combine_pdfs directory s) = l @ [ErrCombining OSError]"
    using out_combine_pdfs_failed by blast+
qed

theorem merge_order_and_pages_witness:
  "pdf_candidates
      [(''combined_extraction'',
          Dir [(''b.pdf'', File (Pdf [''b1'', ''b2''])), (''a.pdf'', File (Pdf [''a1''])),
               (''notes.txt'', File (Blob ''n'')),
               (''sub'', Dir [(''c.PDF'', File (Pdf [''c1'']))])])]
      ''combined_extraction''
     = [[''combined_extraction'', ''b.pdf''], [''combined_extraction'', ''a.pdf''],
        [''combined_extraction'', ''sub'', ''c.PDF'']] \<and>
   lookup (fs (combine_pdfs ''combined_extraction''
      \<lparr>fs = [(''combined_extraction'',
          Dir [(''b.pdf'', File (Pdf [''b1'', ''b2''])), (''a.pdf'', File (Pdf [''a1''])),
               (''notes.txt'', File (Blob ''n'')),
               (''sub'', Dir [(''c.PDF'', File (Pdf [''c1'']))])])],
       total_files_extracted = 3, out = [], opened = []\<rparr>))
     [''combined_extraction'', ''merged.pdf'']
     = Some (File (Pdf [''a1'', ''b1'', ''b2'', ''c1'']))"
proof -
  let ?d = "[(''combined_extraction'',
          Dir [(''b.pdf'', File (Pdf [''b1'', ''b2''])), (''a.pdf'', File (Pdf [''a1''])),
               (''notes.txt'', File (Blob ''n'')),
               (''sub'', Dir [(''c.PDF'', File (Pdf [''c1'']))])])]"
  let ?s = "\<lparr>fs = ?d, total_files_extracted = 3, out = [], opened = []\<rparr>"
  have c: "pdf_candidates ?d ''combined_extraction''
     = [[''combined_extraction'', ''b.pdf''], [''combined_extraction'', ''a.pdf''],
        [''combined_extraction'', ''sub'', ''c.PDF'']]"
    by (simp add: walk_eval)
  have m: "\<forall>x. lookup ?d [''combined_extraction'', ''merged.pdf''] \<noteq> Some (Dir x)"
    by simp
  have "lookup (fs (combine_pdfs ''combined_extraction'' ?s))
          [''combined_extraction'', ''merged.pdf'']
     = Some (File (Pdf (concat (map (pages_of (fs ?s))
          (sort_key join_slash (pdf_candidates (fs ?s) ''combined_extraction''))))))"
    using merge_order_and_pages [of ?s "''combined_extraction''"] c m
    by (simp del: lookup.simps)
  also have "\<dots> = Some (File (Pdf [''a1'', ''b1'', ''b2'', ''c1'']))"
    by (simp add: c pages_of_def)
  finally show ?thesis
    using c by (simp del: lookup.simps)
qed

subsection \<open>Candidates that fail to append\<close>

text \<open>
  \<^verbatim>\<open>combine_pdfs\<close> on any state: for every candidate that cannot be appended the error
  line is printed and the merge goes on; with at least one candidate and \<^verbatim>\<open>merged.pdf\<close>
  not a directory, \<^verbatim>\<open>merged.pdf\<close> is written and holds the pages of exactly the
  candidates that could be appended, in sorted order; without a candidate, or when the
  write fails, the files stay as they were.
\<close>

lemma combine_pdfs_skips:
  "(\<forall>pdf \<in> set (pdf_candidates (fs s) directory).
       \<not> appends (fs s) pdf \<longrightarrow>
       ErrAdding pdf PdfReadError \<in> set (out (combine_pdfs directory s))) \<and>
   (pdf_candidates (fs s) directory \<noteq> [] \<and>
    (\<forall>x. lookup (fs s) [directory, ''merged.pdf''] \<noteq> Some (Dir x)) \<longrightarrow>
       lookup (fs (combine_pdfs directory s)) [directory, ''merged.pdf'']
         = Some (File (Pdf (concat (map (pages_of (fs s))
              (filter (appends (fs s))
                 (sort_key join_slash (pdf_candidates (fs s) directory)))))))) \<and>
   (pdf_candidates (fs s) directory = [] \<or>
    (\<exists>x. lookup (fs s) [directory, ''merged.pdf''] = Some (Dir x)) \<longrightarrow>
       fs (combine_pdfs directory s) = fs s)"
proof (intro conjI ballI impI)
  fix pdf
  assume "pdf \<in> set (pdf_candidates (fs s) directory)" and "\<not> appends (fs s) pdf"
  then show "ErrAdding pdf PdfReadError \<in> set (out (combine_pdfs directory s))"
    by (rule combine_pdfs_err)
next
  assume "pdf_candidates (fs s) directory \<noteq> [] \<and>
    (\<forall>x. lookup (fs s) [directory, ''merged.pdf''] \<noteq> Some (Dir x))"
  then have "pdf_candidates (fs s) directory \<noteq> []"
    and "\<forall>x. lookup (fs s) [directory, ''merged.pdf''] \<noteq> Some (Dir x)"
    by blast+
  then have "lookup (fs (combine_pdfs directory s)) [directory, ''merged.pdf'']
         = Some (File (Pdf (concat (map (pages_of (fs s))
                 (sort_key join_slash (pdf_candidates (fs s) directory))))))"
    by (rule fs_combine_pdfs_done)
  then show "lookup (fs (combine_pdfs directory s)) [directory, ''merged.pdf'']
         = Some (File (Pdf (concat (map (pages_of (fs s))
              (filter (appends (fs s))
                 (sort_key join_slash (pdf_candidates (fs s) directory)))))))"
    by (simp only: concat_pages_appends)
next
  assume a: "pdf_candidates (fs s) directory = [] \<or>
    (\<exists>x. lookup (fs s) [directory, ''merged.pdf''] = Some (Dir x))"
  show "fs (combine_pdfs directory s) = fs s"
  proof (cases "pdf_candidates (fs s) directory = []")
    case True
    then show ?thesis by (simp add: fs_combine_pdfs)
  next
    case False
    with a obtain x where "lookup (fs s) [directory, ''merged.pdf''] = Some (Dir x)"
      by blast
    with False show ?thesis
      using out_combine_pdfs_failed by blast
  qed
qed

subsection \<open>Handles\<close>

text \<open>
  C9: the archive handles are released on every way out of the loop body
  (\<open>opened_extract_loop\<close>), and the merger is closed when \<^verbatim>\<open>merger.write\<close> returns
  (\<open>opened_combine_pdfs\<close>). When \<^verbatim>\<open>merger.write\<close> raises, \<^verbatim>\<open>merger.close()\<close> is
  skipped: for the archive below, which holds \<^verbatim>\<open>report.pdf\<close> and a folder
  \<^verbatim>\<open>merged.pdf/\<close>, the run returns normally with the merger still open.
\<close>

theorem merger_left_open_when_write_fails:
  "left_open (batch_unzip True
      \<lparr>target = Some (Dir [(''x.zip'', File (Zip [Member ''report.pdf'' True (Pdf [''r1'']),
                                                  Member ''merged.pdf/'' True (Blob [])]))]),
       r_ok = True, w_ok = True, x_ok = True\<rparr>)
     = [MergerHandle] \<and>
   uncaught (batch_unzip True
      \<lparr>target = Some (Dir [(''x.zip'', File (Zip [Member ''report.pdf'' True (Pdf [''r1'']),
                                                  Member ''merged.pdf/'' True (Blob [])]))]),
       r_ok = True, w_ok = True, x_ok = True\<rparr>)
     = None"
proof -
  have c: "pdf_candidates
      [(''x.zip'', File (Zip [Member ''report.pdf'' True (Pdf [''r1'']),
                              Member ''merged.pdf/'' True (Blob [])])),
       (''combined_extraction'',
          Dir [(''report.pdf'', File (Pdf [''r1''])), (''merged.pdf'', Dir [])])]
      ''combined_extraction''
     = [[''combined_extraction'', ''report.pdf'']]"
    by (simp add: walk_eval)
  show ?thesis
    by (simp add: setup_eval) (simp add: opened_combine_pdfs loop_eval c)
qed

subsection \<open>The lines a stage prints\<close>

lemma quiet_simps [simp]: "quiet []" "quiet (e # l) \<longleftrightarrow> e \<noteq> CreatedDest \<and> e \<noteq> RemovingExisting \<and> quiet l"
  "quiet (l @ l') \<longleftrightarrow> quiet l \<and> quiet l'"
  by (auto simp: quiet_def)

lemma out_extract_archive: "\<exists>l. out (extract_archive item s) = out s @ l \<and> quiet l"
  by (simp add: extract_archive_def Let_def split: sum.splits prod.splits option.splits)

lemma out_process_item: "\<exists>l. out (process_item item s) = out s @ l \<and> quiet l"
proof -
  obtain l where "out (extract_archive item
       (release (ArchiveHandle item) (print_line (ZipValid True)
          (acquire (ArchiveHandle item) (print_line (Processing item) s)))))
     = out s @ [Processing item, ZipValid True] @ l" and "quiet l"
    using out_extract_archive [of item "release (ArchiveHandle item) (print_line (ZipValid True)
          (acquire (ArchiveHandle item) (print_line (Processing item) s)))"]
    by auto
  then show ?thesis
    by (auto simp: process_item_def Let_def split: sum.splits)
qed

lemma out_extract_loop: "\<exists>l. out (extract_loop items s) = out s @ l \<and> quiet l"
proof (induction items arbitrary: s)
  case Nil
  then show ?case by simp
next
  case (Cons item items)
  obtain l1 where l1: "out (process_item item s) = out s @ l1" "quiet l1"
    using out_process_item by blast
  obtain l2 where "out (extract_loop items (process_item item s)) = out (process_item item s) @ l2"
    "quiet l2"
    using Cons.IH by blast
  with l1 have "out (extract_loop (item # items) s) = out s @ (l1 @ l2) \<and> quiet (l1 @ l2)"
    by simp
  then show ?case by blast
qed

lemma out_add_pdfs: "\<exists>l. out (snd (add_pdfs cands m s)) = out s @ l \<and> quiet l"
proof (induction cands arbitrary: m s)
  case Nil
  then show ?case by simp
next
  case (Cons c cands)
  show ?case
  proof (cases "appends (fs s) c")
    case True
    from Cons.IH [of "m @ pages_of (fs s) c" "print_line (Adding (last c)) s"]
    obtain l where "out (snd (add_pdfs cands (m @ pages_of (fs s) c)
          (print_line (Adding (last c)) s))) = out s @ (Adding (last c) # l)" "quiet l"
      by auto
    with True have "out (snd (add_pdfs (c # cands) m s)) = out s @ (Adding (last c) # l) \<and>
        quiet (Adding (last c) # l)"
      by (simp add: add_pdfs_Cons del: add_pdfs.simps(2))
    then show ?thesis by blast
  next
    case False
    from Cons.IH [of m "print_line (ErrAdding c PdfReadError) (print_line (Adding (last c)) s)"]
    obtain l where "out (snd (add_pdfs cands m
          (print_line (ErrAdding c PdfReadError) (print_line (Adding (last c)) s))))
        = out s @ (Adding (last c) # ErrAdding c PdfReadError # l)" "quiet l"
      by auto
    with False have "out (snd (add_pdfs (c # cands) m s))
        = out s @ (Adding (last c) # ErrAdding c PdfReadError # l) \<and>
        quiet (Adding (last c) # ErrAdding c PdfReadError # l)"
      by (simp add: add_pdfs_Cons del: add_pdfs.simps(2))
    then show ?thesis by blast
  qed
qed

lemma out_combine_pdfs: "\<exists>l. out (combine_pdfs directory s) = out s @ l \<and> quiet l"
proof (cases "pdf_candidates (fs s) directory = []")
  case True
  then show ?thesis by (simp add: combine_pdfs_unfold)
next
  case False
  let ?s2 = "acquire MergerHandle
               (print_line (FoundPdfs (length (pdf_candidates (fs s) directory))) s)"
  obtain l where "out (snd (add_pdfs (sort_key join_slash (pdf_candidates (fs s) directory)) [] ?s2))
      = out ?s2 @ l" "quiet l"
    using out_add_pdfs by blast
  with False show ?thesis
    by (simp add: combine_pdfs_unfold Let_def split: sum.splits del: write_at.simps)
qed

lemma recreate_Inr:
  assumes "\<forall>c. map_of (fs s) extract_path \<noteq> Some (File c)"
  shows "recreate s = Inr (s\<lparr>fs := AList.update extract_path (Dir []) (AList.delete extract_path (fs s)),
                            out := out s @ (if map_of (fs s) extract_path = None then []
                                            else [RemovingExisting]) @ [CreatedDest]\<rparr>)"
proof (cases "map_of (fs s) extract_path")
  case None
  then have "extract_path \<notin> fst ` set (fs s)"
    by (simp add: map_of_eq_None_iff)
  then have "AList.delete extract_path (fs s) = fs s"
    by simp
  with None show ?thesis
    by (simp add: recreate_def print_line_def)
next
  case (Some a)
  with assms show ?thesis
    by (cases a) (simp_all add: recreate_def print_line_def Let_def)
qed

lemma fs_combine_pdfs_cong:
  "fs s = fs t \<Longrightarrow> fs (combine_pdfs directory s) = fs (combine_pdfs directory t)"
  by (simp add: fs_combine_pdfs split: sum.splits del: write_at.simps)

lemma extract_and_merge_Inr:
  assumes "\<forall>c. map_of (fs s) extract_path \<noteq> Some (File c)"
  shows "\<exists>s' post. extract_and_merge a zs s = Inr s' \<and>
           out s' = out s @ [FoundZips zs]
                      @ (if map_of (fs s) extract_path = None then [] else [RemovingExisting])
                      @ [CreatedDest] @ post \<and> quiet post"
proof -
  let ?s0 = "print_line (FoundZips zs) s"
  let ?s1 = "?s0\<lparr>fs := AList.update extract_path (Dir []) (AList.delete extract_path (fs ?s0)),
                  out := out ?s0 @ (if map_of (fs ?s0) extract_path = None then []
                                   else [RemovingExisting]) @ [CreatedDest]\<rparr>"
  have r: "recreate ?s0 = Inr ?s1"
    using assms by (intro recreate_Inr) simp
  let ?s2 = "extract_loop zs (?s1\<lparr>total_files_extracted := 0\<rparr>)"
  let ?s3 = "print_line (Expected (total_files_extracted ?s2))
               (print_line (TotalOnDisk (length (files_below (fs ?s2) [extract_path] (\<lambda>file. True))))
                  ?s2)"
  let ?s4 = "if a then combine_pdfs extract_path ?s3 else print_line MergeSkipped ?s3"
  have e: "extract_and_merge a zs s = Inr (print_line Completed ?s4)"
    by (simp only: extract_and_merge_def r Let_def sum.case)
  obtain l2 where l2: "out ?s2 = out (?s1\<lparr>total_files_extracted := 0\<rparr>) @ l2" "quiet l2"
    using out_extract_loop by blast
  obtain l4 where l4: "out ?s4 = out ?s3 @ l4" "quiet l4"
    using out_combine_pdfs [of extract_path ?s3] by (cases a) auto
  let ?post = "l2 @ [TotalOnDisk (length (files_below (fs ?s2) [extract_path] (\<lambda>file. True))),
                     Expected (total_files_extracted ?s2)] @ l4 @ [Completed]"
  have "out (print_line Completed ?s4) = out s @ [FoundZips zs]
                      @ (if map_of (fs s) extract_path = None then [] else [RemovingExisting])
                      @ [CreatedDest] @ ?post"
    using l2(1) l4(1) by simp
  moreover have "quiet ?post"
    using l2(2) l4(2) by simp
  ultimately show ?thesis
    using e by blast
qed

lemma extract_and_merge_fs_cong:
  assumes "\<forall>c. map_of (fs s) extract_path \<noteq> Some (File c)"
    and "\<forall>c. map_of (fs t) extract_path \<noteq> Some (File c)"
    and "AList.delete extract_path (fs s) = AList.delete extract_path (fs t)"
    and "extract_and_merge a zs s = Inr s'" and "extract_and_merge a zs t = Inr t'"
  shows "fs s' = fs t'"
proof -
  let ?s0 = "print_line (FoundZips zs) s" and ?t0 = "print_line (FoundZips zs) t"
  obtain s1 where s1: "recreate ?s0 = Inr s1"
    and fs1: "fs s1 = AList.update extract_path (Dir []) (AList.delete extract_path (fs s))"
    using recreate_Inr [of ?s0] assms(1) by simp
  obtain t1 where t1: "recreate ?t0 = Inr t1"
    and ft1: "fs t1 = AList.update extract_path (Dir []) (AList.delete extract_path (fs t))"
    using recreate_Inr [of ?t0] assms(2) by simp
  let ?s2 = "extract_loop zs (s1\<lparr>total_files_extracted := 0\<rparr>)"
  let ?t2 = "extract_loop zs (t1\<lparr>total_files_extracted := 0\<rparr>)"
  have eq2: "fs ?s2 = fs ?t2 \<and> total_files_extracted ?s2 = total_files_extracted ?t2"
    by (rule extract_loop_cong) (simp_all add: fs1 ft1 assms(3))
  from assms(4) s1 have "fs s' = (if a then fs (combine_pdfs extract_path
        (print_line (Expected (total_files_extracted ?s2))
           (print_line (TotalOnDisk (length (files_below (fs ?s2) [extract_path] (\<lambda>file. True))))
              ?s2))) else fs ?s2)"
    by (auto simp: extract_and_merge_def Let_def)
  moreover from assms(5) t1 have "fs t' = (if a then fs (combine_pdfs extract_path
        (print_line (Expected (total_files_extracted ?t2))
           (print_line (TotalOnDisk (length (files_below (fs ?t2) [extract_path] (\<lambda>file. True))))
              ?t2))) else fs ?t2)"
    by (auto simp: extract_and_merge_def Let_def)
  moreover have "fs (combine_pdfs extract_path
        (print_line (Expected (total_files_extracted ?s2))
           (print_line (TotalOnDisk (length (files_below (fs ?s2) [extract_path] (\<lambda>file. True))))
              ?s2)))
      = fs (combine_pdfs extract_path
        (print_line (Expected (total_files_extracted ?t2))
           (print_line (TotalOnDisk (length (files_below (fs ?t2) [extract_path] (\<lambda>file. True))))
              ?t2)))"
    by (rule fs_combine_pdfs_cong) (simp add: eq2)
  ultimately show ?thesis
    using eq2 by simp
qed

lemma extract_path_no_zip:
  "\<not> endswith (lower extract_path) ''.zip''" "\<not> endswith extract_path ''.zip''"
  by (simp_all add: extract_path_def endswith_def lower_def lower_char_def)

lemma listdir_delete: "listdir (AList.delete k d) = filter (\<lambda>n. n \<noteq> k) (listdir d)"
  by (induction d) (auto simp: listdir_def)

lemma isfile_delete: "n \<noteq> k \<Longrightarrow> isfile (AList.delete k d) n = isfile d n"
  by (simp add: isfile_def delete_conv')

lemma find_zip_files_delete:
  "find_zip_files (AList.delete extract_path d) = find_zip_files d"
proof -
  have ne: "x \<noteq> extract_path" if "endswith (lower x) ''.zip''" for x
    using that extract_path_no_zip(1) by auto
  have a: "filter (\<lambda>item. isfile (AList.delete extract_path d) item \<and> endswith (lower item) ''.zip'')
             (listdir (AList.delete extract_path d))
         = filter (\<lambda>item. isfile d item \<and> endswith (lower item) ''.zip'') (listdir d)"
    using ne by (auto simp: listdir_delete isfile_delete intro!: filter_cong)
  have b: "glob_zip (AList.delete extract_path d) = glob_zip d"
    using extract_path_no_zip(2)
    by (auto simp: glob_zip_def listdir_delete intro!: filter_cong)
  have c: "filter (\<lambda>f. endswith (lower f) ''.zip'') (listdir (AList.delete extract_path d))
         = filter (\<lambda>f. endswith (lower f) ''.zip'') (listdir d)"
    using extract_path_no_zip(1)
    by (auto simp: listdir_delete intro!: filter_cong)
  show ?thesis
    by (simp only: find_zip_files_def Let_def a b c)
qed

lemma process_item_keep:
  assumes "lookup (fs u) (extract_path # p) = Some (File c)"
    and "\<forall>ms. ZipFile (fs u) y = Inr ms \<longrightarrow>
           (\<forall>n \<in> set (namelist ms). endswith n ''/'' \<or> arc_parts n \<noteq> p)"
  shows "lookup (fs (process_item y u)) (extract_path # p) = Some (File c)"
  using assms
  by (auto simp: fs_process_item extractall_def intro: extract_each_keep
           split: sum.splits simp del: lookup.simps)

lemma extract_loop_keep:
  assumes "lookup (fs u) (extract_path # p) = Some (File c)"
    and "\<forall>y \<in> set ys. y \<noteq> extract_path \<and> (\<forall>ms. ZipFile (fs u) y = Inr ms \<longrightarrow>
           (\<forall>n \<in> set (namelist ms). endswith n ''/'' \<or> arc_parts n \<noteq> p))"
  shows "lookup (fs (extract_loop ys u)) (extract_path # p) = Some (File c)"
  using assms
proof (induction ys arbitrary: u)
  case Nil
  then show ?case by simp
next
  case (Cons y ys)
  have 1: "lookup (fs (process_item y u)) (extract_path # p) = Some (File c)"
    using Cons.prems by (intro process_item_keep) simp_all
  have 2: "ZipFile (fs (process_item y u)) y' = ZipFile (fs u) y'" if "y' \<noteq> extract_path" for y'
    using that by (intro ZipFile_cong process_item_frame)
  have "lookup (fs (extract_loop ys (process_item y u))) (extract_path # p) = Some (File c)"
    using 1
  proof (rule Cons.IH)
    show "\<forall>y' \<in> set ys. y' \<noteq> extract_path \<and>
        (\<forall>ms. ZipFile (fs (process_item y u)) y' = Inr ms \<longrightarrow>
           (\<forall>n \<in> set (namelist ms). endswith n ''/'' \<or> arc_parts n \<noteq> p))"
      using Cons.prems(2) by (auto simp: 2)
  qed
  then show ?case by simp
qed

subsection \<open>The extraction folder is rebuilt\<close>

text \<open>
  C3, as stated: in every run the extraction folder is removed and created again, so that
  nothing of an earlier run survives. A run that ends at one of the early returns does
  not touch the folder: with no archive in the directory, the old content is still there
  after the run.
\<close>

theorem stale_destination_survives_counterexample:
  "batch_unzip True
      \<lparr>target = Some (Dir [(''readme.txt'', File (Blob ''r'')),
                           (''combined_extraction'', Dir [(''old.txt'', File (Blob ''stale''))])]),
       r_ok = True, w_ok = True, x_ok = True\<rparr>
     = \<lparr>after = Some (Dir [(''readme.txt'', File (Blob ''r'')),
                           (''combined_extraction'', Dir [(''old.txt'', File (Blob ''stale''))])]),
        printed = [PermissionCheck True True True, NoZipFound],
        uncaught = None, left_open = []\<rparr>"
  by (simp add: setup_eval)

text \<open>
  C3, amended: in every run that passes the checks of the setup (the directory exists
  with the three permissions and the search finds archives), and where
  \<^verbatim>\<open>combined_extraction\<close> is absent or a directory, the run raises nothing; the
  directory it leaves is the one the same run leaves when the folder did not exist
  before, so nothing of the old folder survives; and the folder is created exactly once
  (removed before that exactly when it existed), before the first line of the loop is
  printed: all later lines are \<open>quiet\<close>.
\<close>

theorem destination_rebuilt:
  assumes "target w = Some (Dir d)" and "r_ok w \<and> w_ok w \<and> x_ok w"
    and "find_zip_files d = Some (m, zs)"
    and "\<forall>c. map_of d extract_path \<noteq> Some (File c)"
  shows "uncaught (batch_unzip a w) = None \<and>
         after (batch_unzip a w)
           = after (batch_unzip a (w\<lparr>target := Some (Dir (AList.delete extract_path d))\<rparr>)) \<and>
         (\<exists>post. printed (batch_unzip a w)
              = [PermissionCheck True True True, UsingMethod m zs, FoundZips zs]
                @ (if map_of d extract_path = None then [] else [RemovingExisting])
                @ [CreatedDest] @ post \<and>
            quiet post)"
proof -
  let ?d' = "AList.delete extract_path d"
  let ?w' = "w\<lparr>target := Some (Dir ?d')\<rparr>"
  let ?s = "\<lparr>fs = d, total_files_extracted = 0,
             out = [PermissionCheck True True True, UsingMethod m zs], opened = []\<rparr>"
  let ?t = "\<lparr>fs = ?d', total_files_extracted = 0,
             out = [PermissionCheck True True True, UsingMethod m zs], opened = []\<rparr>"
  have nf: "\<forall>c. map_of (fs ?s) extract_path \<noteq> Some (File c)"
    using assms(4) by simp
  have nf': "\<forall>c. map_of (fs ?t) extract_path \<noteq> Some (File c)"
    by (simp add: delete_conv')
  obtain s' post where s': "extract_and_merge a zs ?s = Inr s'"
    and out: "out s' = out ?s @ [FoundZips zs]
                      @ (if map_of (fs ?s) extract_path = None then [] else [RemovingExisting])
                      @ [CreatedDest] @ post" and q: "quiet post"
    using extract_and_merge_Inr [OF nf] by blast
  obtain t' where t': "extract_and_merge a zs ?t = Inr t'"
    using extract_and_merge_Inr [OF nf'] by blast
  have eq: "fs s' = fs t'"
    using nf nf' _ s' t' by (rule extract_and_merge_fs_cong) (simp add: delete_idem)
  have run: "batch_unzip a w
      = \<lparr>after = Some (Dir (fs s')), printed = out s', uncaught = None, left_open = opened s'\<rparr>"
    using assms s' by (simp add: batch_unzip_def check_permissions_def)
  have run': "batch_unzip a ?w'
      = \<lparr>after = Some (Dir (fs t')), printed = out t', uncaught = None, left_open = opened t'\<rparr>"
    using assms t' by (simp add: batch_unzip_def check_permissions_def find_zip_files_delete)
  show ?thesis
    using run run' eq out q by auto
qed

theorem destination_rebuilt_witness:
  "after (batch_unzip False
      \<lparr>target = Some (Dir [(''a.zip'', File (Zip [Member ''new.txt'' True (Blob ''N'')])),
                           (''combined_extraction'', Dir [(''old.txt'', File (Blob ''stale''))])]),
       r_ok = True, w_ok = True, x_ok = True\<rparr>)
     = Some (Dir [(''a.zip'', File (Zip [Member ''new.txt'' True (Blob ''N'')])),
                  (''combined_extraction'', Dir [(''new.txt'', File (Blob ''N''))])])"
proof -
  let ?d = "[(''a.zip'', File (Zip [Member ''new.txt'' True (Blob ''N'')])),
             (''combined_extraction'', Dir [(''old.txt'', File (Blob ''stale''))])]"
  let ?w = "\<lparr>target = Some (Dir ?d), r_ok = True, w_ok = True, x_ok = True\<rparr>"
  have f: "find_zip_files ?d = Some (1, [''a.zip''])"
    by (simp add: find_zip_files_def listdir_def isfile_def lower_def lower_char_def
                  endswith_def)
  have n: "\<forall>c. map_of ?d extract_path \<noteq> Some (File c)"
    by (simp add: extract_path_def)
  have "after (batch_unzip False ?w)
      = after (batch_unzip False (?w\<lparr>target := Some (Dir (AList.delete extract_path ?d))\<rparr>))"
    using destination_rebuilt [of ?w ?d 1 "[''a.zip'']" False] f n by simp
  also have "\<dots> = Some (Dir [(''a.zip'', File (Zip [Member ''new.txt'' True (Blob ''N'')])),
                  (''combined_extraction'', Dir [(''new.txt'', File (Blob ''N''))])])"
    by (simp add: extract_path_def) (simp add: setup_eval, simp add: loop_eval)
  finally show ?thesis .
qed

subsection \<open>Two archives with the same path\<close>

lemma extract_each_append:
  "extract_each ms c (xs @ ys) d =
     (case extract_each ms c xs d of
        (d1, None) \<Rightarrow> extract_each ms c ys d1
      | (d1, Some e) \<Rightarrow> (d1, Some e))"
  by (induction xs arbitrary: d) (simp_all split: sum.splits)

text \<open>
  C5, as stated: the content of a path that two archives hold is that of the archive
  later in sort order. The loop takes the archives in the order of the directory listing
  and never sorts them: when the directory lists \<^verbatim>\<open>b.zip\<close> before \<^verbatim>\<open>a.zip\<close>, the
  content of \<^verbatim>\<open>a.zip\<close> stays, although \<^verbatim>\<open>b.zip\<close> is the later one in sort order.
  And the later archive writes the path only when its extraction gets there: when
  \<^verbatim>\<open>b.zip\<close>, listed and sorted after \<^verbatim>\<open>a.zip\<close>, holds the member \<^verbatim>\<open>..\<close> before
  \<^verbatim>\<open>f.txt\<close>, its extraction raises on that member and the content of \<^verbatim>\<open>a.zip\<close>
  stays.
\<close>

theorem listing_order_not_sort_order_counterexample:
  "located [(''b.zip'', File (Zip [Member ''f.txt'' True (Blob ''from b'')])),
            (''a.zip'', File (Zip [Member ''f.txt'' True (Blob ''from a'')]))]
     = [''b.zip'', ''a.zip''] \<and>
   sort [''b.zip'', ''a.zip''] = [''a.zip'', ''b.zip''] \<and>
   after (batch_unzip True
      \<lparr>target = Some (Dir [(''b.zip'', File (Zip [Member ''f.txt'' True (Blob ''from b'')])),
                           (''a.zip'', File (Zip [Member ''f.txt'' True (Blob ''from a'')]))]),
       r_ok = True, w_ok = True, x_ok = True\<rparr>)
     = Some (Dir [(''b.zip'', File (Zip [Member ''f.txt'' True (Blob ''from b'')])),
                  (''a.zip'', File (Zip [Member ''f.txt'' True (Blob ''from a'')])),
                  (''combined_extraction'', Dir [(''f.txt'', File (Blob ''from a''))])]) \<and>
   located [(''a.zip'', File (Zip [Member ''f.txt'' True (Blob ''from a'')])),
            (''b.zip'', File (Zip [Member ''..'' True (Blob ''up''),
                                   Member ''f.txt'' True (Blob ''from b'')]))]
     = [''a.zip'', ''b.zip''] \<and>
   sort [''a.zip'', ''b.zip''] = [''a.zip'', ''b.zip''] \<and>
   after (batch_unzip True
      \<lparr>target = Some (Dir [(''a.zip'', File (Zip [Member ''f.txt'' True (Blob ''from a'')])),
                           (''b.zip'', File (Zip [Member ''..'' True (Blob ''up''),
                                                  Member ''f.txt'' True (Blob ''from b'')]))]),
       r_ok = True, w_ok = True, x_ok = True\<rparr>)
     = Some (Dir [(''a.zip'', File (Zip [Member ''f.txt'' True (Blob ''from a'')])),
                  (''b.zip'', File (Zip [Member ''..'' True (Blob ''up''),
                                         Member ''f.txt'' True (Blob ''from b'')])),
                  (''combined_extraction'', Dir [(''f.txt'', File (Blob ''from a''))])])"
proof (intro conjI)
  show "located [(''b.zip'', File (Zip [Member ''f.txt'' True (Blob ''from b'')])),
            (''a.zip'', File (Zip [Member ''f.txt'' True (Blob ''from a'')]))]
     = [''b.zip'', ''a.zip'']"
    by (simp add: located_def find_zip_files_def listdir_def isfile_def lower_def
                  lower_char_def endswith_def)
  show "sort [''b.zip'', ''a.zip''] = [''a.zip'', ''b.zip'']"
    by simp
  have c: "pdf_candidates
      [(''b.zip'', File (Zip [Member ''f.txt'' True (Blob ''from b'')])),
       (''a.zip'', File (Zip [Member ''f.txt'' True (Blob ''from a'')])),
       (''combined_extraction'', Dir [(''f.txt'', File (Blob ''from a''))])]
      ''combined_extraction'' = []"
    by (simp add: walk_eval)
  show "after (batch_unzip True
      \<lparr>target = Some (Dir [(''b.zip'', File (Zip [Member ''f.txt'' True (Blob ''from b'')])),
                           (''a.zip'', File (Zip [Member ''f.txt'' True (Blob ''from a'')]))]),
       r_ok = True, w_ok = True, x_ok = True\<rparr>)
     = Some (Dir [(''b.zip'', File (Zip [Member ''f.txt'' True (Blob ''from b'')])),
                  (''a.zip'', File (Zip [Member ''f.txt'' True (Blob ''from a'')])),
                  (''combined_extraction'', Dir [(''f.txt'', File (Blob ''from a''))])])"
    by (simp add: setup_eval) (simp add: fs_combine_pdfs loop_eval c)
  show "located [(''a.zip'', File (Zip [Member ''f.txt'' True (Blob ''from a'')])),
            (''b.zip'', File (Zip [Member ''..'' True (Blob ''up''),
                                   Member ''f.txt'' True (Blob ''from b'')]))]
     = [''a.zip'', ''b.zip'']"
    by (simp add: located_def find_zip_files_def listdir_def isfile_def lower_def
                  lower_char_def endswith_def)
  show "sort [''a.zip'', ''b.zip''] = [''a.zip'', ''b.zip'']"
    by simp
  have c': "pdf_candidates
      [(''a.zip'', File (Zip [Member ''f.txt'' True (Blob ''from a'')])),
       (''b.zip'', File (Zip [Member ''..'' True (Blob ''up''),
                              Member ''f.txt'' True (Blob ''from b'')])),
       (''combined_extraction'', Dir [(''f.txt'', File (Blob ''from a''))])]
      ''combined_extraction'' = []"
    by (simp add: walk_eval)
  show "after (batch_unzip True
      \<lparr>target = Some (Dir [(''a.zip'', File (Zip [Member ''f.txt'' True (Blob ''from a'')])),
                           (''b.zip'', File (Zip [Member ''..'' True (Blob ''up''),
                                                  Member ''f.txt'' True (Blob ''from b'')]))]),
       r_ok = True, w_ok = True, x_ok = True\<rparr>)
     = Some (Dir [(''a.zip'', File (Zip [Member ''f.txt'' True (Blob ''from a'')])),
                  (''b.zip'', File (Zip [Member ''..'' True (Blob ''up''),
                                         Member ''f.txt'' True (Blob ''from b'')])),
                  (''combined_extraction'', Dir [(''f.txt'', File (Blob ''from a''))])])"
    by (simp add: setup_eval) (simp add: fs_combine_pdfs loop_eval c')
qed

text \<open>
  C5, amended: the content of a path is that of the archive processed later, in the order
  in which the search listed the archives, when that archive passes the integrity check
  and its extraction gets as far as its last data member for the path. For a batch
  \<open>xs @ b # ys\<close> in which \<open>b\<close> is valid, the names \<open>before\<close> of \<open>b\<close>, up to the last one
  that leads to the path \<open>p\<close>, are extracted without an error (whatever happens to the
  names \<open>rest\<close> after them), and no archive of \<open>ys\<close> holds a data member for \<open>p\<close>, the
  file at \<open>p\<close> holds the data of \<open>b\<close> at the end, whatever the archives \<open>xs\<close> before
  it wrote there. Writing a data member onto an existing regular file never raises.
\<close>

theorem later_archive_wins:
  assumes "b \<noteq> extract_path"
    and "ZipFile (fs s) b = Inr ms" and "testzip ms = Inr None"
    and "namelist ms = before @ rest"
    and "snd (extract_each ms extract_path before (fs (extract_loop xs s))) = None"
    and "written_by ms before p = Some c"
    and "\<forall>n \<in> set rest. endswith n ''/'' \<or> arc_parts n \<noteq> p"
    and "\<forall>y \<in> set ys. y \<noteq> extract_path \<and> (\<forall>ms'. ZipFile (fs s) y = Inr ms' \<longrightarrow>
           (\<forall>n \<in> set (namelist ms'). endswith n ''/'' \<or> arc_parts n \<noteq> p))"
  shows "lookup (fs (extract_loop (xs @ b # ys) s)) (extract_path # p) = Some (File c) \<and>
         (\<forall>d c0 c1. lookup d (extract_path # p) = Some (File c0) \<longrightarrow>
             (\<exists>d'. write_at (extract_path # p) (Some c1) d = Inr d'))"
proof
  let ?t = "extract_loop xs s"
  let ?u = "process_item b ?t"
  have "map_of (fs ?t) b = map_of (fs s) b"
    using assms(1) by (rule extract_loop_frame)
  then have z: "ZipFile (fs ?t) b = Inr ms"
    using assms(2) by (simp add: ZipFile_def)
  obtain d1 where x: "extract_each ms extract_path before (fs ?t) = (d1, None)"
    using assms(5) by (cases "extract_each ms extract_path before (fs ?t)") simp
  then have "fs ?u = fst (extract_each ms extract_path rest d1)"
    using z assms(3,4) by (simp add: fs_process_item extractall_def extract_each_append)
  moreover have "lookup d1 (extract_path # p) = Some (File c)"
    using x assms(6) by (rule extract_each_written)
  then have "lookup (fst (extract_each ms extract_path rest d1)) (extract_path # p)
      = Some (File c)"
    using assms(7) by (rule extract_each_keep)
  ultimately have 1: "lookup (fs ?u) (extract_path # p) = Some (File c)"
    by simp
  have 2: "ZipFile (fs ?u) y = ZipFile (fs s) y" if "y \<noteq> extract_path" for y
  proof (rule ZipFile_cong)
    have "map_of (fs (extract_loop (xs @ [b]) s)) y = map_of (fs s) y"
      using that by (rule extract_loop_frame)
    then show "map_of (fs ?u) y = map_of (fs s) y"
      by (simp add: extract_loop_append)
  qed
  have "lookup (fs (extract_loop ys ?u)) (extract_path # p) = Some (File c)"
    using 1
  proof (rule extract_loop_keep)
    show "\<forall>y \<in> set ys. y \<noteq> extract_path \<and>
        (\<forall>ms'. ZipFile (fs ?u) y = Inr ms' \<longrightarrow>
           (\<forall>n \<in> set (namelist ms'). endswith n ''/'' \<or> arc_parts n \<noteq> p))"
      using assms(8) by (auto simp: 2)
  qed
  then show "lookup (fs (extract_loop (xs @ b # ys) s)) (extract_path # p) = Some (File c)"
    by (simp add: extract_loop_append)
next
  show "\<forall>d c0 c1. lookup d (extract_path # p) = Some (File c0) \<longrightarrow>
             (\<exists>d'. write_at (extract_path # p) (Some c1) d = Inr d')"
    using write_at_over by blast
qed

theorem later_archive_wins_witness:
  "lookup (fs (extract_loop [''a.zip'', ''b.zip'', ''c.zip'']
      \<lparr>fs = [(''a.zip'', File (Zip [Member ''f.txt'' True (Blob ''from a'')])),
             (''b.zip'', File (Zip [Member ''f.txt'' True (Blob ''from b''),
                                    Member ''..'' True (Blob ''up'')])),
             (''c.zip'', File (Zip [Member ''g.txt'' True (Blob ''from c'')])),
             (''combined_extraction'', Dir [])],
       total_files_extracted = 0, out = [], opened = []\<rparr>))
     [''combined_extraction'', ''f.txt'']
   = Some (File (Blob ''from b''))"
proof -
  let ?s = "\<lparr>fs = [(''a.zip'', File (Zip [Member ''f.txt'' True (Blob ''from a'')])),
             (''b.zip'', File (Zip [Member ''f.txt'' True (Blob ''from b''),
                                    Member ''..'' True (Blob ''up'')])),
             (''c.zip'', File (Zip [Member ''g.txt'' True (Blob ''from c'')])),
             (''combined_extraction'', Dir [])],
       total_files_extracted = 0, out = [], opened = []\<rparr>"
  let ?ms = "[Member ''f.txt'' True (Blob ''from b''), Member ''..'' True (Blob ''up'')]"
  have 1: "''b.zip'' \<noteq> extract_path"
    by (simp add: extract_path_def)
  have 2: "ZipFile (fs ?s) ''b.zip'' = Inr ?ms"
    by (simp add: ZipFile_def)
  have 3: "testzip ?ms = Inr None"
    by (simp add: testzip_def getinfo_def)
  have 4: "namelist ?ms = [''f.txt''] @ [''..'']"
    by (simp add: namelist_def)
  have 5: "snd (extract_each ?ms extract_path [''f.txt''] (fs (extract_loop [''a.zip''] ?s)))
      = None"
    by (simp add: loop_eval)
  have 6: "written_by ?ms [''f.txt''] [''f.txt''] = Some (Blob ''from b'')"
    by (simp add: written_by_def getinfo_def arc_parts_def endswith_def)
  have 7: "\<forall>n \<in> set [''..'']. endswith n ''/'' \<or> arc_parts n \<noteq> [''f.txt'']"
    by (simp add: arc_parts_def)
  have 8: "\<forall>y \<in> set [''c.zip'']. y \<noteq> extract_path \<and>
      (\<forall>ms'. ZipFile (fs ?s) y = Inr ms' \<longrightarrow>
         (\<forall>n \<in> set (namelist ms'). endswith n ''/'' \<or> arc_parts n \<noteq> [''f.txt'']))"
    by (simp add: extract_path_def ZipFile_def namelist_def arc_parts_def)
  from later_archive_wins [OF 1 2 3 4 5 6 7 8] show ?thesis
    by (simp add: extract_path_def del: lookup.simps)
qed

subsection \<open>Members without conflict extract without error\<close>

lemma lookup_update:
  "lookup (AList.update c v T) (c0 # rest) =
     (if c0 = c
      then (if rest = [] then Some v
            else (case v of Dir sub \<Rightarrow> lookup sub rest | File x \<Rightarrow> None))
      else lookup T (c0 # rest))"
  by (cases v) (simp_all add: lookup_Cons update_conv')

lemma within_empty: "within E []"
proof -
  have "lookup [] q = None" if "q \<noteq> []" for q
    using that by (cases q) (simp_all add: lookup_Cons)
  moreover have "lookup [] [] = Some (Dir [])"
    by simp
  ultimately show ?thesis
    unfolding within_def by (metis node.distinct(1) option.distinct(1) option.inject)
qed

lemma within_sub:
  assumes "within E T" and "map_of T c = Some (Dir sub)"
  shows "within (shift E c) sub"
  unfolding within_def
proof (intro conjI allI impI)
  fix q x
  assume f: "lookup sub q = Some (File x)"
  then have "q \<noteq> []" by auto
  with f assms(2) have "lookup T (c # q) = Some (File x)"
    by (simp add: lookup_Cons)
  with assms(1) show "(q, True) \<in> shift E c"
    by (simp add: within_def shift_def)
next
  fix q s'
  assume ne: "q \<noteq> []" and d: "lookup sub q = Some (Dir s')"
  with assms(2) have "lookup T (c # q) = Some (Dir s')"
    by (simp add: lookup_Cons)
  with assms(1) obtain q' k where q': "(q', k) \<in> E" "prefix (c # q) q'" "q' = c # q \<longrightarrow> \<not> k"
    unfolding within_def by blast
  from q'(2) obtain q'' where "q' = c # q''" "prefix q q''"
    by (cases q') auto
  with q' have "(q'', k) \<in> shift E c \<and> prefix q q'' \<and> (q'' = q \<longrightarrow> \<not> k)"
    by (simp add: shift_def)
  then show "\<exists>q' k. (q', k) \<in> shift E c \<and> prefix q q' \<and> (q' = q \<longrightarrow> \<not> k)"
    by blast
qed

lemma within_update_file:
  assumes "within E T" and "([c], True) \<in> E"
  shows "within E (AList.update c (File b) T)"
  unfolding within_def
proof (intro conjI allI impI)
  fix q x
  assume f: "lookup (AList.update c (File b) T) q = Some (File x)"
  then obtain c0 rest where q: "q = c0 # rest" by (cases q) auto
  show "(q, True) \<in> E"
  proof (cases "c0 = c")
    case True
    with f q have "rest = []" by (auto simp: lookup_update split: if_splits)
    with True q assms(2) show ?thesis by simp
  next
    case False
    with f q have "lookup T q = Some (File x)" by (simp add: lookup_update)
    with assms(1) show ?thesis by (simp add: within_def)
  qed
next
  fix q sub
  assume ne: "q \<noteq> []" and d: "lookup (AList.update c (File b) T) q = Some (Dir sub)"
  then obtain c0 rest where q: "q = c0 # rest" by (cases q) auto
  with d have "c0 \<noteq> c" by (auto simp: lookup_update split: if_splits)
  with d q have "lookup T q = Some (Dir sub)" by (simp add: lookup_update)
  with assms(1) ne show "\<exists>q' k. (q', k) \<in> E \<and> prefix q q' \<and> (q' = q \<longrightarrow> \<not> k)"
    unfolding within_def by blast
qed

lemma within_update_dir:
  assumes "within E T" and "within (shift E c) sub'"
    and "\<exists>q' k. (q', k) \<in> E \<and> prefix [c] q' \<and> (q' = [c] \<longrightarrow> \<not> k)"
  shows "within E (AList.update c (Dir sub') T)"
  unfolding within_def
proof (intro conjI allI impI)
  fix q x
  assume f: "lookup (AList.update c (Dir sub') T) q = Some (File x)"
  then obtain c0 rest where q: "q = c0 # rest" by (cases q) auto
  show "(q, True) \<in> E"
  proof (cases "c0 = c")
    case True
    with f q have "rest \<noteq> []" and "lookup sub' rest = Some (File x)"
      by (auto simp: lookup_update split: if_splits)
    with assms(2) have "(rest, True) \<in> shift E c" by (simp add: within_def)
    with True q show ?thesis by (simp add: shift_def)
  next
    case False
    with f q have "lookup T q = Some (File x)" by (simp add: lookup_update)
    with assms(1) show ?thesis by (simp add: within_def)
  qed
next
  fix q sub
  assume ne: "q \<noteq> []" and d: "lookup (AList.update c (Dir sub') T) q = Some (Dir sub)"
  then obtain c0 rest where q: "q = c0 # rest" by (cases q) auto
  show "\<exists>q' k. (q', k) \<in> E \<and> prefix q q' \<and> (q' = q \<longrightarrow> \<not> k)"
  proof (cases "c0 = c")
    case False
    with d q have "lookup T q = Some (Dir sub)" by (simp add: lookup_update)
    with assms(1) ne show ?thesis unfolding within_def by blast
  next
    case True
    show ?thesis
    proof (cases "rest = []")
      case r: True
      with True q assms(3) show ?thesis by simp
    next
      case r: False
      with True d q have "lookup sub' rest = Some (Dir sub)" by (simp add: lookup_update)
      with assms(2) r obtain q'' k where
        "(q'', k) \<in> shift E c" "prefix rest q''" "q'' = rest \<longrightarrow> \<not> k"
        unfolding within_def by blast
      with True q have "(c # q'', k) \<in> E \<and> prefix q (c # q'') \<and> (c # q'' = q \<longrightarrow> \<not> k)"
        by (simp add: shift_def)
      then show ?thesis by blast
    qed
  qed
qed

lemma no_conflict_set: "no_conflict es \<longleftrightarrow> conflict_free (set es)"
  unfolding no_conflict_def conflict_free_def
  by (auto simp: split_def Ball_def) blast+

lemma conflict_freeD:
  "conflict_free E \<Longrightarrow> (p, True) \<in> E \<Longrightarrow> (q, k) \<in> E \<Longrightarrow> prefix p q \<Longrightarrow> q = p \<and> k"
  unfolding conflict_free_def by blast

lemma conflict_free_nonempty: "conflict_free E \<Longrightarrow> ([], True) \<notin> E"
  unfolding conflict_free_def by auto

lemma within_fileD: "within E T \<Longrightarrow> lookup T q = Some (File x) \<Longrightarrow> (q, True) \<in> E"
  unfolding within_def by blast

lemma within_dirD:
  "within E T \<Longrightarrow> q \<noteq> [] \<Longrightarrow> lookup T q = Some (Dir sub) \<Longrightarrow>
   \<exists>q' k. (q', k) \<in> E \<and> prefix q q' \<and> (q' = q \<longrightarrow> \<not> k)"
  unfolding within_def by blast

lemma conflict_free_shift:
  assumes "conflict_free E" and "(c # cs, k) \<in> E" and "cs \<noteq> []"
  shows "conflict_free (shift E c)"
  unfolding conflict_free_def
proof (intro allI impI conjI)
  fix p
  assume p: "(p, True) \<in> shift E c"
  then have pe: "(c # p, True) \<in> E" by (simp add: shift_def)
  show "p \<noteq> []"
  proof
    assume "p = []"
    with pe have "([c], True) \<in> E" by simp
    from conflict_freeD [OF assms(1) this assms(2)] have "c # cs = [c]" by simp
    with assms(3) show False by simp
  qed
  fix q k'
  assume "(q, k') \<in> shift E c" and pq: "prefix p q"
  then have "(c # q, k') \<in> E" by (simp add: shift_def)
  from conflict_freeD [OF assms(1) pe this] pq show "q = p" and k' by simp_all
qed

lemma no_file_on_way:
  assumes "conflict_free E" and "within E T" and "(c # cs, k) \<in> E" and "cs \<noteq> [] \<or> \<not> k"
  shows "map_of T c \<noteq> Some (File x)"
proof
  assume "map_of T c = Some (File x)"
  then have "lookup T [c] = Some (File x)" by simp
  with assms(2) have "([c], True) \<in> E" by (rule within_fileD)
  from conflict_freeD [OF assms(1) this assms(3)] have "c # cs = [c] \<and> k" by simp
  with assms(4) show False by simp
qed

lemma no_dir_at_data:
  assumes "conflict_free E" and "within E T" and "([c], True) \<in> E"
  shows "map_of T c \<noteq> Some (Dir sub)"
proof
  assume "map_of T c = Some (Dir sub)"
  then have "lookup T [c] = Some (Dir sub)" by simp
  from within_dirD [OF assms(2) _ this] obtain q' k' where
    q': "(q', k') \<in> E" "prefix [c] q'" "q' = [c] \<longrightarrow> \<not> k'"
    by auto
  from conflict_freeD [OF assms(1,3) q'(1,2)] q'(3) show False by simp
qed

lemma write_within:
  assumes "conflict_free E" and "within E T" and "(p, k) \<in> E"
  shows "\<exists>T'. write_at p (if k then Some b else None) T = Inr T' \<and> within E T'"
  using assms
proof (induction p arbitrary: E T)
  case Nil
  then have "\<not> k" using conflict_free_nonempty by (cases k) auto
  with Nil show ?case by simp
next
  case (Cons c cs)
  let ?w = "if k then Some b else None"
  show ?case
  proof (cases "cs = []")
    case True
    then have mem: "([c], k) \<in> E" using Cons.prems(3) by simp
    show ?thesis
    proof (cases k)
      case k: True
      have "map_of T c \<noteq> Some (Dir sub)" for sub
        using Cons.prems(1,2) mem k by (intro no_dir_at_data) simp_all
      then have "write_at [c] (Some b) T = Inr (AList.update c (File b) T)"
        by (auto split: option.splits node.splits)
      moreover have "within E (AList.update c (File b) T)"
        using Cons.prems(2) mem k by (intro within_update_file) simp_all
      ultimately show ?thesis using True k by simp
    next
      case k: False
      have nf: "map_of T c \<noteq> Some (File x)" for x
        using Cons.prems(1,2) mem k by (intro no_file_on_way [of E T c "[]" k]) simp_all
      show ?thesis
      proof (cases "map_of T c")
        case None
        then have "write_at [c] None T = Inr (AList.update c (Dir []) T)" by simp
        moreover have "within E (AList.update c (Dir []) T)"
          using Cons.prems(2) within_empty
        proof (rule within_update_dir)
          show "\<exists>q' k. (q', k) \<in> E \<and> prefix [c] q' \<and> (q' = [c] \<longrightarrow> \<not> k)"
            using mem k by (intro exI [of _ "[c]"] exI [of _ False]) simp
        qed
        ultimately show ?thesis using True k by simp
      next
        case (Some a)
        with nf obtain sub where "a = Dir sub" by (cases a) auto
        with Some have "write_at [c] None T = Inr T" by simp
        with Cons.prems(2) True k show ?thesis by simp
      qed
    qed
  next
    case False
    have cf': "conflict_free (shift E c)"
      using Cons.prems(1,3) False by (rule conflict_free_shift)
    have mem': "(cs, k) \<in> shift E c"
      using Cons.prems(3) by (simp add: shift_def)
    have wit: "\<exists>q' k. (q', k) \<in> E \<and> prefix [c] q' \<and> (q' = [c] \<longrightarrow> \<not> k)"
      using Cons.prems(3) False by (intro exI [of _ "c # cs"] exI [of _ k]) simp
    have nf: "map_of T c \<noteq> Some (File x)" for x
      using Cons.prems False by (intro no_file_on_way [of E T c cs k]) simp_all
    show ?thesis
    proof (cases "map_of T c")
      case None
      from Cons.IH [OF cf' within_empty mem'] obtain sub' where
        w: "write_at cs ?w [] = Inr sub'" and i: "within (shift E c) sub'"
        by blast
      have "write_at (c # cs) ?w T = Inr (AList.update c (Dir sub') T)"
        using None w False by (simp add: write_at_Cons)
      moreover have "within E (AList.update c (Dir sub') T)"
        using Cons.prems(2) i wit by (rule within_update_dir)
      ultimately show ?thesis by blast
    next
      case (Some a)
      with nf obtain sub where a: "map_of T c = Some (Dir sub)" by (cases a) auto
      have "within (shift E c) sub"
        using Cons.prems(2) a by (rule within_sub)
      from Cons.IH [OF cf' this mem'] obtain sub' where
        w: "write_at cs ?w sub = Inr sub'" and i: "within (shift E c) sub'"
        by blast
      have "write_at (c # cs) ?w T = Inr (AList.update c (Dir sub') T)"
        using a w False by (simp add: write_at_Cons)
      moreover have "within E (AList.update c (Dir sub') T)"
        using Cons.prems(2) i wit by (rule within_update_dir)
      ultimately show ?thesis by blast
    qed
  qed
qed

lemma write_at_below:
  assumes "map_of d c = Some (Dir T)"
  shows "write_at (c # p) w d =
     (case write_at p w T of Inl e \<Rightarrow> Inl e | Inr T' \<Rightarrow> Inr (AList.update c (Dir T') d))"
proof (cases "p = []")
  case True
  with assms show ?thesis
    by (cases w) (simp_all add: update_triv)
next
  case False
  with assms show ?thesis
    by (simp add: write_at_Cons)
qed

lemma write_dest:
  assumes "conflict_free E" and "dest_within E d" and "(p, k) \<in> E"
  shows "\<exists>d'. write_at (extract_path # p) (if k then Some b else None) d = Inr d' \<and>
              dest_within E d'"
proof -
  from assms(2) obtain T where T: "map_of d extract_path = Some (Dir T)" and w: "within E T"
    unfolding dest_within_def by blast
  from write_within [OF assms(1) w assms(3), of b] obtain T' where
    T': "write_at p (if k then Some b else None) T = Inr T'" and w': "within E T'"
    by blast
  have "write_at (extract_path # p) (if k then Some b else None) d
      = Inr (AList.update extract_path (Dir T') d)"
    using write_at_below [OF T, of p "if k then Some b else None"] T' by simp
  moreover have "dest_within E (AList.update extract_path (Dir T') d)"
    unfolding dest_within_def using w' by (simp add: update_conv')
  ultimately show ?thesis by blast
qed

lemma getinfo_namelist: "n \<in> set (namelist ms) \<Longrightarrow> \<exists>m. getinfo ms n = Some m"
  by (cases "getinfo ms n") (auto simp: getinfo_def namelist_def find_None_iff)

text \<open>
  When \<^verbatim>\<open>testzip\<close> has returned \<open>None\<close>, every name of the archive leads to a member
  whose data can be read.
\<close>

lemma testzip_from_reads:
  "testzip_from ms zs = Inr None \<Longrightarrow> z \<in> set zs \<Longrightarrow>
   \<exists>m b. getinfo ms (filename z) = Some m \<and> read_member m = Inr b"
  by (induction zs) (auto split: option.splits sum.splits if_splits)

lemma testzip_reads:
  "testzip ms = Inr None \<Longrightarrow> n \<in> set (namelist ms) \<Longrightarrow>
   \<exists>m b. getinfo ms n = Some m \<and> read_member m = Inr b"
  using testzip_from_reads [of ms ms] by (auto simp: testzip_def namelist_def)

lemma extract_member_ok:
  assumes "conflict_free E" and "dest_within E d" and "n \<in> set (namelist ms)"
    and "(arc_parts n, \<not> endswith n ''/'') \<in> E" and "testzip ms = Inr None"
  shows "\<exists>d'. extract_member ms extract_path n d = Inr d' \<and> dest_within E d'"
proof -
  from testzip_reads [OF assms(5,3)] obtain m b where m: "getinfo ms n = Some m"
    and b: "read_member m = Inr b"
    by blast
  then have fn: "filename m = n" by (simp add: getinfo_filename)
  from write_dest [OF assms(1,2,4), of b] obtain d' where
    "write_at (extract_path # arc_parts n)
        (if \<not> endswith n ''/'' then Some b else None) d = Inr d'"
    and "dest_within E d'"
    by blast
  then show ?thesis
    using m b fn by (auto simp: extract_member_def)
qed

lemma extract_each_ok:
  assumes "conflict_free E" and "testzip ms = Inr None"
  shows "dest_within E d \<Longrightarrow> set ns \<subseteq> set (namelist ms) \<Longrightarrow>
         \<forall>n \<in> set ns. (arc_parts n, \<not> endswith n ''/'') \<in> E \<Longrightarrow>
         \<exists>d'. extract_each ms extract_path ns d = (d', None) \<and> dest_within E d'"
proof (induction ns arbitrary: d)
  case Nil
  then show ?case by simp
next
  case (Cons n ns)
  from extract_member_ok [OF assms(1) Cons.prems(1) _ _ assms(2), of n] Cons.prems(2,3)
  obtain d1 where d1: "extract_member ms extract_path n d = Inr d1" "dest_within E d1"
    by auto
  from Cons.IH [OF d1(2)] Cons.prems(2,3)
  obtain d' where "extract_each ms extract_path ns d1 = (d', None)" "dest_within E d'"
    by auto
  with d1 show ?case by simp
qed

lemma process_item_ok:
  assumes "conflict_free E" and "dest_within E (fs s)"
    and "ZipFile (fs s) z = Inr ms" and "testzip ms = Inr None"
    and "set (archive_entries ms) \<subseteq> E"
  shows "total_files_extracted (process_item z s)
           = total_files_extracted s + file_entries (fs s) z \<and>
         dest_within E (fs (process_item z s))"
proof -
  have "\<forall>n \<in> set (namelist ms). (arc_parts n, \<not> endswith n ''/'') \<in> E"
    using assms(5) by (auto simp: archive_entries_def)
  with extract_each_ok [OF assms(1,4,2), of "namelist ms"]
  obtain d' where "extractall ms extract_path (fs s) = (d', None)" "dest_within E d'"
    by (auto simp: extractall_def)
  with assms(3,4) show ?thesis
    by (simp add: total_process_item fs_process_item file_entries_def)
qed

lemma extract_loop_ok:
  assumes "conflict_free E"
  shows "dest_within E (fs s) \<Longrightarrow>
         \<forall>z \<in> set zs. z \<noteq> extract_path \<and>
            (\<exists>ms. ZipFile (fs s) z = Inr ms \<and> testzip ms = Inr None \<and> set (archive_entries ms) \<subseteq> E) \<Longrightarrow>
         total_files_extracted (extract_loop zs s)
           = total_files_extracted s + sum_list (map (file_entries (fs s)) zs)"
proof (induction zs arbitrary: s)
  case Nil
  then show ?case by simp
next
  case (Cons z zs)
  from Cons.prems(2) obtain ms where ms: "ZipFile (fs s) z = Inr ms" "testzip ms = Inr None"
    "set (archive_entries ms) \<subseteq> E"
    by auto
  from process_item_ok [OF assms Cons.prems(1) ms]
  have t: "total_files_extracted (process_item z s)
           = total_files_extracted s + file_entries (fs s) z"
    and w: "dest_within E (fs (process_item z s))"
    by simp_all
  have same: "ZipFile (fs (process_item z s)) y = ZipFile (fs s) y" if "y \<noteq> extract_path" for y
    using that by (intro ZipFile_cong process_item_frame)
  have "total_files_extracted (extract_loop zs (process_item z s))
      = total_files_extracted (process_item z s)
        + sum_list (map (file_entries (fs (process_item z s))) zs)"
    using w
  proof (rule Cons.IH)
    show "\<forall>y \<in> set zs. y \<noteq> extract_path \<and>
        (\<exists>ms. ZipFile (fs (process_item z s)) y = Inr ms \<and> testzip ms = Inr None \<and>
              set (archive_entries ms) \<subseteq> E)"
      using Cons.prems(2) by (auto simp: same)
  qed
  moreover have m: "map (file_entries (fs (process_item z s))) zs = map (file_entries (fs s)) zs"
    using Cons.prems(2) by (auto simp: file_entries_def same)
  ultimately show ?case
    unfolding m using t by simp
qed

lemma find_zip_files_suffix:
  "find_zip_files d = Some (m, zs) \<Longrightarrow> \<forall>z \<in> set zs. endswith (lower z) ''.zip''"
  by (auto simp: find_zip_files_def glob_zip_def Let_def dest: lower_zip_suffix
           split: if_splits)

lemma extract_and_merge_expected:
  assumes "\<forall>c. map_of (fs s) extract_path \<noteq> Some (File c)"
  shows "\<exists>s'. extract_and_merge a zs s = Inr s' \<and>
           Expected (total_files_extracted (extract_loop zs
              \<lparr>fs = AList.update extract_path (Dir []) (AList.delete extract_path (fs s)),
               total_files_extracted = 0, out = [], opened = []\<rparr>)) \<in> set (out s')"
proof -
  let ?s0 = "print_line (FoundZips zs) s"
  obtain s1 where r: "recreate ?s0 = Inr s1"
    and f1: "fs s1 = AList.update extract_path (Dir []) (AList.delete extract_path (fs s))"
    using recreate_Inr [of ?s0] assms by simp
  let ?s2 = "extract_loop zs (s1\<lparr>total_files_extracted := 0\<rparr>)"
  let ?s3 = "print_line (Expected (total_files_extracted ?s2))
               (print_line (TotalOnDisk (length (files_below (fs ?s2) [extract_path] (\<lambda>file. True))))
                  ?s2)"
  let ?s4 = "if a then combine_pdfs extract_path ?s3 else print_line MergeSkipped ?s3"
  have e: "extract_and_merge a zs s = Inr (print_line Completed ?s4)"
    by (simp only: extract_and_merge_def r Let_def sum.case)
  obtain l4 where "out ?s4 = out ?s3 @ l4"
    using out_combine_pdfs [of extract_path ?s3] by (cases a) auto
  then have "Expected (total_files_extracted ?s2) \<in> set (out (print_line Completed ?s4))"
    by simp
  moreover have "total_files_extracted ?s2 = total_files_extracted (extract_loop zs
              \<lparr>fs = AList.update extract_path (Dir []) (AList.delete extract_path (fs s)),
               total_files_extracted = 0, out = [], opened = []\<rparr>)"
    using extract_loop_cong [of "s1\<lparr>total_files_extracted := 0\<rparr>"
        "\<lparr>fs = AList.update extract_path (Dir []) (AList.delete extract_path (fs s)),
          total_files_extracted = 0, out = [], opened = []\<rparr>" zs] f1
    by simp
  ultimately show ?thesis
    using e by auto
qed

subsection \<open>The count of extracted files\<close>

text \<open>
  C2, as stated: for valid archives whose entry paths do not overlap, the count the run
  reports after the loop is the sum over the archives of their entries that are no
  directories. The count of an archive is added only when its extraction has completed
  (line 167 follows \<^verbatim>\<open>extractall\<close> inside the \<^verbatim>\<open>try\<close>). The archives \<^verbatim>\<open>a.zip\<close> with
  the one data member \<^verbatim>\<open>x\<close> and \<^verbatim>\<open>b.zip\<close> with the one data member \<^verbatim>\<open>x/y\<close> are both
  valid and their two paths differ, but \<^verbatim>\<open>x/y\<close> cannot be written below the regular
  file \<^verbatim>\<open>x\<close>: the extraction of \<^verbatim>\<open>b.zip\<close> raises, and the run reports 1 where the sum
  is 2.
\<close>

theorem count_below_sum_counterexample:
  "valid_archives [(''a.zip'', File (Zip [Member ''x'' True (Blob ''A'')])),
                   (''b.zip'', File (Zip [Member ''x/y'' True (Blob ''B'')]))]
     [''a.zip'', ''b.zip''] \<and>
   map fst (batch_entries [(''a.zip'', File (Zip [Member ''x'' True (Blob ''A'')])),
                           (''b.zip'', File (Zip [Member ''x/y'' True (Blob ''B'')]))]
              [''a.zip'', ''b.zip''])
     = [[''x''], [''x'', ''y'']] \<and>
   sum_list (map (file_entries [(''a.zip'', File (Zip [Member ''x'' True (Blob ''A'')])),
                                (''b.zip'', File (Zip [Member ''x/y'' True (Blob ''B'')]))])
              [''a.zip'', ''b.zip'']) = 2 \<and>
   batch_unzip False
     \<lparr>target = Some (Dir [(''a.zip'', File (Zip [Member ''x'' True (Blob ''A'')])),
                          (''b.zip'', File (Zip [Member ''x/y'' True (Blob ''B'')]))]),
      r_ok = True, w_ok = True, x_ok = True\<rparr>
   = \<lparr>after = Some (Dir [(''a.zip'', File (Zip [Member ''x'' True (Blob ''A'')])),
                          (''b.zip'', File (Zip [Member ''x/y'' True (Blob ''B'')])),
                          (''combined_extraction'', Dir [(''x'', File (Blob ''A''))])]),
      printed = [PermissionCheck True True True, UsingMethod 1 [''a.zip'', ''b.zip''],
                 FoundZips [''a.zip'', ''b.zip''], CreatedDest,
                 Processing ''a.zip'', ZipValid True, ZipContains 1, ExtractionCompleted,
                 Added 1,
                 Processing ''b.zip'', ZipValid True, ZipContains 1,
                 ErrExtracting ''b.zip'' OSError,
                 TotalOnDisk 1, Expected 1, MergeSkipped, Completed],
      uncaught = None, left_open = []\<rparr>"
proof (intro conjI)
  show "valid_archives [(''a.zip'', File (Zip [Member ''x'' True (Blob ''A'')])),
                   (''b.zip'', File (Zip [Member ''x/y'' True (Blob ''B'')]))]
     [''a.zip'', ''b.zip'']"
    by (simp add: valid_archives_def ZipFile_def testzip_def getinfo_def)
  show "map fst (batch_entries [(''a.zip'', File (Zip [Member ''x'' True (Blob ''A'')])),
                           (''b.zip'', File (Zip [Member ''x/y'' True (Blob ''B'')]))]
              [''a.zip'', ''b.zip''])
     = [[''x''], [''x'', ''y'']]"
    by (simp add: batch_entries_def archive_entries_def ZipFile_def namelist_def arc_parts_def)
  show "sum_list (map (file_entries [(''a.zip'', File (Zip [Member ''x'' True (Blob ''A'')])),
                                (''b.zip'', File (Zip [Member ''x/y'' True (Blob ''B'')]))])
              [''a.zip'', ''b.zip'']) = 2"
    by (simp add: file_entries_def ZipFile_def namelist_def endswith_def)
  show "batch_unzip False
     \<lparr>target = Some (Dir [(''a.zip'', File (Zip [Member ''x'' True (Blob ''A'')])),
                          (''b.zip'', File (Zip [Member ''x/y'' True (Blob ''B'')]))]),
      r_ok = True, w_ok = True, x_ok = True\<rparr>
   = \<lparr>after = Some (Dir [(''a.zip'', File (Zip [Member ''x'' True (Blob ''A'')])),
                          (''b.zip'', File (Zip [Member ''x/y'' True (Blob ''B'')])),
                          (''combined_extraction'', Dir [(''x'', File (Blob ''A''))])]),
      printed = [PermissionCheck True True True, UsingMethod 1 [''a.zip'', ''b.zip''],
                 FoundZips [''a.zip'', ''b.zip''], CreatedDest,
                 Processing ''a.zip'', ZipValid True, ZipContains 1, ExtractionCompleted,
                 Added 1,
                 Processing ''b.zip'', ZipValid True, ZipContains 1,
                 ErrExtracting ''b.zip'' OSError,
                 TotalOnDisk 1, Expected 1, MergeSkipped, Completed],
      uncaught = None, left_open = []\<rparr>"
    by (simp add: setup_eval) (simp add: run_eval files_below_def walk_at_def walk.simps)
qed

text \<open>
  C2, amended: for a run that passes the setup, where \<^verbatim>\<open>combined_extraction\<close> is absent
  or a directory, with archives that all open and pass the integrity check and whose
  members are without conflict (no data member has an empty path, and the path of no data
  member is a prefix of the path of another member, unless both are data members of the
  same path), the run raises nothing and the count it prints after the loop
  (\<^verbatim>\<open>Expected files based on ZIP contents\<close>) is the sum over the archives of their
  names that do not end in a slash.
\<close>

theorem count_of_extracted_files:
  assumes "target w = Some (Dir d)" and "r_ok w \<and> w_ok w \<and> x_ok w"
    and "find_zip_files d = Some (m, zs)"
    and "\<forall>c. map_of d extract_path \<noteq> Some (File c)"
    and "valid_archives d zs"
    and "no_conflict (batch_entries d zs)"
  shows "Expected (sum_list (map (file_entries d) zs)) \<in> set (printed (batch_unzip a w)) \<and>
         uncaught (batch_unzip a w) = None"
proof -
  let ?s = "\<lparr>fs = d, total_files_extracted = 0,
             out = [PermissionCheck True True True, UsingMethod m zs], opened = []\<rparr>"
  let ?d1 = "AList.update extract_path (Dir []) (AList.delete extract_path d)"
  let ?s1 = "\<lparr>fs = ?d1, total_files_extracted = 0, out = [], opened = []\<rparr>"
  let ?E = "set (batch_entries d zs)"
  have ne: "z \<noteq> extract_path" if "z \<in> set zs" for z
    using find_zip_files_suffix [OF assms(3)] that extract_path_no_zip(1) by auto
  have same: "ZipFile ?d1 z = ZipFile d z" if "z \<in> set zs" for z
    using ne [OF that] by (intro ZipFile_cong) (simp add: update_conv' delete_conv')
  have cf: "conflict_free ?E"
    using assms(6) by (simp add: no_conflict_set)
  have dw: "dest_within ?E (fs ?s1)"
    unfolding dest_within_def by (simp add: update_conv' within_empty)
  have all: "\<forall>z \<in> set zs. z \<noteq> extract_path \<and>
      (\<exists>ms. ZipFile (fs ?s1) z = Inr ms \<and> testzip ms = Inr None \<and> set (archive_entries ms) \<subseteq> ?E)"
  proof
    fix z
    assume z: "z \<in> set zs"
    with assms(5) have "case ZipFile d z of Inr ms \<Rightarrow> testzip ms = Inr None | Inl e \<Rightarrow> False"
      by (simp add: valid_archives_def)
    then obtain ms where ms: "ZipFile d z = Inr ms" "testzip ms = Inr None"
      by (cases "ZipFile d z") auto
    with z have "set (archive_entries ms) \<subseteq> ?E"
      by (force simp: batch_entries_def)
    with ms z show "z \<noteq> extract_path \<and>
      (\<exists>ms. ZipFile (fs ?s1) z = Inr ms \<and> testzip ms = Inr None \<and> set (archive_entries ms) \<subseteq> ?E)"
      by (simp add: ne same)
  qed
  have m: "map (file_entries (fs ?s1)) zs = map (file_entries d) zs"
    by (auto simp: file_entries_def same)
  have "total_files_extracted (extract_loop zs ?s1)
      = total_files_extracted ?s1 + sum_list (map (file_entries (fs ?s1)) zs)"
    using cf dw all by (rule extract_loop_ok)
  then have total: "total_files_extracted (extract_loop zs ?s1)
      = sum_list (map (file_entries d) zs)"
    unfolding m by simp
  have nf: "\<forall>c. map_of (fs ?s) extract_path \<noteq> Some (File c)"
    using assms(4) by simp
  from extract_and_merge_expected [OF nf, of a zs] obtain s' where
    s': "extract_and_merge a zs ?s = Inr s'"
    and ex: "Expected (total_files_extracted (extract_loop zs ?s1)) \<in> set (out s')"
    by auto
  have "batch_unzip a w
      = \<lparr>after = Some (Dir (fs s')), printed = out s', uncaught = None, left_open = opened s'\<rparr>"
    using assms s' by (simp add: batch_unzip_def check_permissions_def)
  with ex total show ?thesis by simp
qed

theorem count_of_extracted_files_witness:
  "valid_archives
     [(''a.zip'', File (Zip [Member ''docs/'' True (Blob []), Member ''docs/a.txt'' True (Blob ''A''),
                             Member ''b.txt'' True (Blob ''B'')])),
      (''c.zip'', File (Zip [Member ''docs/c.txt'' True (Blob ''C''),
                             Member ''e/f.txt'' True (Blob ''F'')]))]
     [''a.zip'', ''c.zip''] \<and>
   no_conflict (batch_entries
     [(''a.zip'', File (Zip [Member ''docs/'' True (Blob []), Member ''docs/a.txt'' True (Blob ''A''),
                             Member ''b.txt'' True (Blob ''B'')])),
      (''c.zip'', File (Zip [Member ''docs/c.txt'' True (Blob ''C''),
                             Member ''e/f.txt'' True (Blob ''F'')]))]
     [''a.zip'', ''c.zip'']) \<and>
   Expected 4 \<in> set (printed (batch_unzip False
     \<lparr>target = Some (Dir
        [(''a.zip'', File (Zip [Member ''docs/'' True (Blob []),
                                Member ''docs/a.txt'' True (Blob ''A''),
                                Member ''b.txt'' True (Blob ''B'')])),
         (''c.zip'', File (Zip [Member ''docs/c.txt'' True (Blob ''C''),
                                Member ''e/f.txt'' True (Blob ''F'')]))]),
      r_ok = True, w_ok = True, x_ok = True\<rparr>))"
proof -
  let ?d = "[(''a.zip'', File (Zip [Member ''docs/'' True (Blob []),
                                   Member ''docs/a.txt'' True (Blob ''A''),
                                   Member ''b.txt'' True (Blob ''B'')])),
            (''c.zip'', File (Zip [Member ''docs/c.txt'' True (Blob ''C''),
                                   Member ''e/f.txt'' True (Blob ''F'')]))]"
  let ?w = "\<lparr>target = Some (Dir ?d), r_ok = True, w_ok = True, x_ok = True\<rparr>"
  have 1: "target ?w = Some (Dir ?d)" and 2: "r_ok ?w \<and> w_ok ?w \<and> x_ok ?w"
    by simp_all
  have 3: "find_zip_files ?d = Some (1, [''a.zip'', ''c.zip''])"
    by (simp add: find_zip_files_def listdir_def isfile_def lower_def lower_char_def
                  endswith_def)
  have 4: "\<forall>c. map_of ?d extract_path \<noteq> Some (File c)"
    by (simp add: extract_path_def)
  have 5: "valid_archives ?d [''a.zip'', ''c.zip'']"
    by (simp add: valid_archives_def ZipFile_def testzip_def getinfo_def)
  have 6: "no_conflict (batch_entries ?d [''a.zip'', ''c.zip''])"
    by (simp add: no_conflict_def batch_entries_def archive_entries_def ZipFile_def
                  namelist_def arc_parts_def endswith_def)
  have 7: "sum_list (map (file_entries ?d) [''a.zip'', ''c.zip'']) = 4"
    by (simp add: file_entries_def ZipFile_def namelist_def endswith_def)
  from count_of_extracted_files [OF 1 2 3 4 5 6, of False] 5 6 show ?thesis
    unfolding 7 by blast
qed

subsection \<open>The merge stage of a run\<close>

lemma extract_and_merge_stages:
  assumes "\<forall>c. map_of (fs s) extract_path \<noteq> Some (File c)"
  shows "\<exists>s3. fs s3 = extracted (fs s) zs \<and>
           extract_and_merge a zs s
             = Inr (print_line Completed
                     (if a then combine_pdfs extract_path s3 else print_line MergeSkipped s3))"
proof -
  let ?s0 = "print_line (FoundZips zs) s"
  obtain s1 where r: "recreate ?s0 = Inr s1"
    and f1: "fs s1 = AList.update extract_path (Dir []) (AList.delete extract_path (fs s))"
    using recreate_Inr [of ?s0] assms by simp
  let ?s2 = "extract_loop zs (s1\<lparr>total_files_extracted := 0\<rparr>)"
  let ?s3 = "print_line (Expected (total_files_extracted ?s2))
               (print_line (TotalOnDisk (length (files_below (fs ?s2) [extract_path] (\<lambda>file. True))))
                  ?s2)"
  let ?s4 = "if a then combine_pdfs extract_path ?s3 else print_line MergeSkipped ?s3"
  have e: "extract_and_merge a zs s = Inr (print_line Completed ?s4)"
    by (simp only: extract_and_merge_def r Let_def sum.case)
  have "fs ?s2 = extracted (fs s) zs"
    unfolding extracted_def
    using extract_loop_cong [of "s1\<lparr>total_files_extracted := 0\<rparr>"
        "\<lparr>fs = AList.update extract_path (Dir []) (AList.delete extract_path (fs s)),
          total_files_extracted = 0, out = [], opened = []\<rparr>" zs] f1
    by simp
  then have "fs ?s3 = extracted (fs s) zs"
    by simp
  with e show ?thesis
    by blast
qed

lemma batch_unzip_stages:
  assumes "target w = Some (Dir d)" and "r_ok w \<and> w_ok w \<and> x_ok w"
    and "find_zip_files d = Some (m, zs)"
    and "\<forall>c. map_of d extract_path \<noteq> Some (File c)"
  shows "\<exists>s3. fs s3 = extracted d zs \<and>
           batch_unzip a w =
             \<lparr>after = Some (Dir (fs (if a then combine_pdfs extract_path s3
                                      else print_line MergeSkipped s3))),
              printed = out (if a then combine_pdfs extract_path s3
                             else print_line MergeSkipped s3) @ [Completed],
              uncaught = None,
              left_open = opened (if a then combine_pdfs extract_path s3
                                  else print_line MergeSkipped s3)\<rparr>"
proof -
  let ?s = "\<lparr>fs = d, total_files_extracted = 0,
             out = [PermissionCheck True True True, UsingMethod m zs], opened = []\<rparr>"
  have nf: "\<forall>c. map_of (fs ?s) extract_path \<noteq> Some (File c)"
    using assms(4) by simp
  from extract_and_merge_stages [OF nf, of zs a] obtain s3 where f3: "fs s3 = extracted d zs"
    and e: "extract_and_merge a zs ?s
             = Inr (print_line Completed
                     (if a then combine_pdfs extract_path s3 else print_line MergeSkipped s3))"
    by auto
  have "batch_unzip a w
      = \<lparr>after = Some (Dir (fs (if a then combine_pdfs extract_path s3
                                      else print_line MergeSkipped s3))),
              printed = out (if a then combine_pdfs extract_path s3
                             else print_line MergeSkipped s3) @ [Completed],
              uncaught = None,
              left_open = opened (if a then combine_pdfs extract_path s3
                                  else print_line MergeSkipped s3)\<rparr>"
    using assms(1-3) e by (simp add: batch_unzip_def check_permissions_def print_line_def)
  with f3 show ?thesis
    by blast
qed

text \<open>
  C8, as stated: \<^verbatim>\<open>merged.pdf\<close> is present after the run only if PDF merging ran and at
  least one candidate was appended. Neither half holds as it stands. The first archive
  below holds one file \<^verbatim>\<open>bad.pdf\<close> that is no PDF: it is the only candidate, it cannot
  be appended, and the run still writes \<^verbatim>\<open>merged.pdf\<close>, with no pages. The second
  archive carries a file \<^verbatim>\<open>merged.pdf\<close> of its own: with the merger unavailable the
  merge does not run, and \<^verbatim>\<open>merged.pdf\<close> is in the folder after the run.
\<close>

theorem merged_written_without_pages_counterexample:
  "pdf_candidates
      [(''x.zip'', File (Zip [Member ''bad.pdf'' True (Blob ''junk'')])),
       (''combined_extraction'', Dir [(''bad.pdf'', File (Blob ''junk''))])]
      ''combined_extraction''
     = [[''combined_extraction'', ''bad.pdf'']] \<and>
   \<not> appends
      [(''x.zip'', File (Zip [Member ''bad.pdf'' True (Blob ''junk'')])),
       (''combined_extraction'', Dir [(''bad.pdf'', File (Blob ''junk''))])]
      [''combined_extraction'', ''bad.pdf''] \<and>
   after (batch_unzip True
      \<lparr>target = Some (Dir [(''x.zip'', File (Zip [Member ''bad.pdf'' True (Blob ''junk'')]))]),
       r_ok = True, w_ok = True, x_ok = True\<rparr>)
     = Some (Dir [(''x.zip'', File (Zip [Member ''bad.pdf'' True (Blob ''junk'')])),
                  (''combined_extraction'',
                     Dir [(''bad.pdf'', File (Blob ''junk'')),
                          (''merged.pdf'', File (Pdf []))])]) \<and>
   batch_unzip False
      \<lparr>target = Some (Dir [(''y.zip'', File (Zip [Member ''merged.pdf'' True (Pdf [''p1''])]))]),
       r_ok = True, w_ok = True, x_ok = True\<rparr>
     = \<lparr>after = Some (Dir [(''y.zip'', File (Zip [Member ''merged.pdf'' True (Pdf [''p1''])])),
                            (''combined_extraction'',
                               Dir [(''merged.pdf'', File (Pdf [''p1'']))])]),
        printed = [PermissionCheck True True True, UsingMethod 1 [''y.zip''],
                   FoundZips [''y.zip''], CreatedDest,
                   Processing ''y.zip'', ZipValid True, ZipContains 1, ExtractionCompleted,
                   Added 1, TotalOnDisk 1, Expected 1, MergeSkipped, Completed],
        uncaught = None, left_open = []\<rparr>"
proof -
  have c: "pdf_candidates
      [(''x.zip'', File (Zip [Member ''bad.pdf'' True (Blob ''junk'')])),
       (''combined_extraction'', Dir [(''bad.pdf'', File (Blob ''junk''))])]
      ''combined_extraction''
     = [[''combined_extraction'', ''bad.pdf'']]"
    by (simp add: walk_eval)
  moreover have "\<not> appends
      [(''x.zip'', File (Zip [Member ''bad.pdf'' True (Blob ''junk'')])),
       (''combined_extraction'', Dir [(''bad.pdf'', File (Blob ''junk''))])]
      [''combined_extraction'', ''bad.pdf'']"
    by (simp add: appends_def)
  moreover have "after (batch_unzip True
      \<lparr>target = Some (Dir [(''x.zip'', File (Zip [Member ''bad.pdf'' True (Blob ''junk'')]))]),
       r_ok = True, w_ok = True, x_ok = True\<rparr>)
     = Some (Dir [(''x.zip'', File (Zip [Member ''bad.pdf'' True (Blob ''junk'')])),
                  (''combined_extraction'',
                     Dir [(''bad.pdf'', File (Blob ''junk'')),
                          (''merged.pdf'', File (Pdf []))])])"
    by (simp add: setup_eval) (simp add: fs_combine_pdfs loop_eval c pages_of_def)
  moreover have "batch_unzip False
      \<lparr>target = Some (Dir [(''y.zip'', File (Zip [Member ''merged.pdf'' True (Pdf [''p1''])]))]),
       r_ok = True, w_ok = True, x_ok = True\<rparr>
     = \<lparr>after = Some (Dir [(''y.zip'', File (Zip [Member ''merged.pdf'' True (Pdf [''p1''])])),
                            (''combined_extraction'',
                               Dir [(''merged.pdf'', File (Pdf [''p1'']))])]),
        printed = [PermissionCheck True True True, UsingMethod 1 [''y.zip''],
                   FoundZips [''y.zip''], CreatedDest,
                   Processing ''y.zip'', ZipValid True, ZipContains 1, ExtractionCompleted,
                   Added 1, TotalOnDisk 1, Expected 1, MergeSkipped, Completed],
        uncaught = None, left_open = []\<rparr>"
    by (simp add: setup_eval) (simp add: run_eval files_below_def walk_at_def walk.simps)
  ultimately show ?thesis
    by blast
qed

text \<open>
  C8, amended: in a run that passes the setup (\<^verbatim>\<open>combined_extraction\<close> absent or a
  directory), with \<open>extracted d zs\<close> the directory as the extraction left it. When the
  merger is not available (\<open>a\<close> is false) the merge is skipped with its line and the run
  leaves the directory as the extraction left it. When it is available, the error line
  is printed for every candidate that cannot be appended and the merge goes on: with at
  least one candidate, and \<^verbatim>\<open>merged.pdf\<close> not a directory, \<^verbatim>\<open>merged.pdf\<close> is written
  and holds the pages of exactly the candidates that could be appended, in sorted order,
  also when there is none of them; without a candidate, or when the write fails, the
  directory stays as the extraction left it. So \<^verbatim>\<open>merged.pdf\<close> is, after the run, a
  file that the extraction did not leave there only if the merge ran and there was at
  least one candidate.
\<close>

theorem merge_stage_of_run:
  assumes "target w = Some (Dir d)" and "r_ok w \<and> w_ok w \<and> x_ok w"
    and "find_zip_files d = Some (m, zs)"
    and "\<forall>c. map_of d extract_path \<noteq> Some (File c)"
  shows "(\<not> a \<longrightarrow>
            after (batch_unzip a w) = Some (Dir (extracted d zs)) \<and>
            MergeSkipped \<in> set (printed (batch_unzip a w))) \<and>
         (a \<longrightarrow>
            (\<forall>pdf \<in> set (pdf_candidates (extracted d zs) extract_path).
                \<not> appends (extracted d zs) pdf \<longrightarrow>
                ErrAdding pdf PdfReadError \<in> set (printed (batch_unzip a w))) \<and>
            (pdf_candidates (extracted d zs) extract_path \<noteq> [] \<and>
             (\<forall>x. lookup (extracted d zs) [extract_path, ''merged.pdf''] \<noteq> Some (Dir x)) \<longrightarrow>
               (\<exists>d'. after (batch_unzip a w) = Some (Dir d') \<and>
                  lookup d' [extract_path, ''merged.pdf'']
                    = Some (File (Pdf (concat (map (pages_of (extracted d zs))
                        (filter (appends (extracted d zs))
                           (sort_key join_slash
                              (pdf_candidates (extracted d zs) extract_path))))))))) \<and>
            (pdf_candidates (extracted d zs) extract_path = [] \<or>
             (\<exists>x. lookup (extracted d zs) [extract_path, ''merged.pdf''] = Some (Dir x)) \<longrightarrow>
               after (batch_unzip a w) = Some (Dir (extracted d zs)))) \<and>
         (\<forall>d' c. after (batch_unzip a w) = Some (Dir d') \<and>
             lookup d' [extract_path, ''merged.pdf''] = Some (File c) \<and>
             lookup (extracted d zs) [extract_path, ''merged.pdf''] \<noteq> Some (File c) \<longrightarrow>
             a \<and> pdf_candidates (extracted d zs) extract_path \<noteq> [])"
proof -
  from batch_unzip_stages [OF assms, of a] obtain s3 where f: "fs s3 = extracted d zs"
    and run: "batch_unzip a w =
             \<lparr>after = Some (Dir (fs (if a then combine_pdfs extract_path s3
                                      else print_line MergeSkipped s3))),
              printed = out (if a then combine_pdfs extract_path s3
                             else print_line MergeSkipped s3) @ [Completed],
              uncaught = None,
              left_open = opened (if a then combine_pdfs extract_path s3
                                  else print_line MergeSkipped s3)\<rparr>"
    by blast
  show ?thesis
  proof (cases a)
    case False
    with run f show ?thesis
      by (simp add: print_line_def del: lookup.simps)
  next
    case True
    with run have after: "after (batch_unzip a w) = Some (Dir (fs (combine_pdfs extract_path s3)))"
      and printed: "printed (batch_unzip a w) = out (combine_pdfs extract_path s3) @ [Completed]"
      by simp_all
    note c = combine_pdfs_skips [of s3 extract_path, unfolded f]
    have 1: "\<forall>pdf \<in> set (pdf_candidates (extracted d zs) extract_path).
                \<not> appends (extracted d zs) pdf \<longrightarrow>
                ErrAdding pdf PdfReadError \<in> set (printed (batch_unzip a w))"
      using c unfolding printed by simp
    have 2: "pdf_candidates (extracted d zs) extract_path \<noteq> [] \<and>
             (\<forall>x. lookup (extracted d zs) [extract_path, ''merged.pdf''] \<noteq> Some (Dir x)) \<longrightarrow>
               (\<exists>d'. after (batch_unzip a w) = Some (Dir d') \<and>
                  lookup d' [extract_path, ''merged.pdf'']
                    = Some (File (Pdf (concat (map (pages_of (extracted d zs))
                        (filter (appends (extracted d zs))
                           (sort_key join_slash
                              (pdf_candidates (extracted d zs) extract_path))))))))"
      using c unfolding after by blast
    have 3: "pdf_candidates (extracted d zs) extract_path = [] \<or>
             (\<exists>x. lookup (extracted d zs) [extract_path, ''merged.pdf''] = Some (Dir x)) \<longrightarrow>
               after (batch_unzip a w) = Some (Dir (extracted d zs))"
      using c unfolding after by blast
    have 4: "\<forall>d' c. after (batch_unzip a w) = Some (Dir d') \<and>
             lookup d' [extract_path, ''merged.pdf''] = Some (File c) \<and>
             lookup (extracted d zs) [extract_path, ''merged.pdf''] \<noteq> Some (File c) \<longrightarrow>
             a \<and> pdf_candidates (extracted d zs) extract_path \<noteq> []"
    proof (intro allI impI conjI)
      show a by (rule True)
    next
      fix d' c
      assume h: "after (batch_unzip a w) = Some (Dir d') \<and>
             lookup d' [extract_path, ''merged.pdf''] = Some (File c) \<and>
             lookup (extracted d zs) [extract_path, ''merged.pdf''] \<noteq> Some (File c)"
      show "pdf_candidates (extracted d zs) extract_path \<noteq> []"
      proof
        assume "pdf_candidates (extracted d zs) extract_path = []"
        with 3 have "after (batch_unzip a w) = Some (Dir (extracted d zs))"
          by blast
        with h show False
          by auto
      qed
    qed
    from True 1 2 3 4 show ?thesis
      by blast
  qed
qed

theorem merge_stage_of_run_witness:
  "ErrAdding [''combined_extraction'', ''bad.pdf''] PdfReadError
     \<in> set (printed (batch_unzip True
      \<lparr>target = Some (Dir [(''x.zip'', File (Zip [Member ''bad.pdf'' True (Blob ''junk''),
                                                  Member ''good.pdf'' True (Pdf [''g1''])]))]),
       r_ok = True, w_ok = True, x_ok = True\<rparr>)) \<and>
   after (batch_unzip True
      \<lparr>target = Some (Dir [(''x.zip'', File (Zip [Member ''bad.pdf'' True (Blob ''junk''),
                                                  Member ''good.pdf'' True (Pdf [''g1''])]))]),
       r_ok = True, w_ok = True, x_ok = True\<rparr>)
     = Some (Dir [(''x.zip'', File (Zip [Member ''bad.pdf'' True (Blob ''junk''),
                                         Member ''good.pdf'' True (Pdf [''g1''])])),
                  (''combined_extraction'',
                     Dir [(''bad.pdf'', File (Blob ''junk'')),
                          (''good.pdf'', File (Pdf [''g1''])),
                          (''merged.pdf'', File (Pdf [''g1'']))])]) \<and>
   after (batch_unzip False
      \<lparr>target = Some (Dir [(''x.zip'', File (Zip [Member ''bad.pdf'' True (Blob ''junk''),
                                                  Member ''good.pdf'' True (Pdf [''g1''])]))]),
       r_ok = True, w_ok = True, x_ok = True\<rparr>)
     = Some (Dir [(''x.zip'', File (Zip [Member ''bad.pdf'' True (Blob ''junk''),
                                         Member ''good.pdf'' True (Pdf [''g1''])])),
                  (''combined_extraction'',
                     Dir [(''bad.pdf'', File (Blob ''junk'')),
                          (''good.pdf'', File (Pdf [''g1'']))])])"
proof -
  let ?d = "[(''x.zip'', File (Zip [Member ''bad.pdf'' True (Blob ''junk''),
                                   Member ''good.pdf'' True (Pdf [''g1''])]))]"
  let ?w = "\<lparr>target = Some (Dir ?d), r_ok = True, w_ok = True, x_ok = True\<rparr>"
  let ?e = "[(''x.zip'', File (Zip [Member ''bad.pdf'' True (Blob ''junk''),
                                   Member ''good.pdf'' True (Pdf [''g1''])])),
             (''combined_extraction'',
                Dir [(''bad.pdf'', File (Blob ''junk'')), (''good.pdf'', File (Pdf [''g1'']))])]"
  have 1: "target ?w = Some (Dir ?d)" and 2: "r_ok ?w \<and> w_ok ?w \<and> x_ok ?w"
    by simp_all
  have 3: "find_zip_files ?d = Some (1, [''x.zip''])"
    by (simp add: find_zip_files_def listdir_def isfile_def lower_def lower_char_def
                  endswith_def)
  have 4: "\<forall>c. map_of ?d extract_path \<noteq> Some (File c)"
    by (simp add: extract_path_def)
  have e: "extracted ?d [''x.zip''] = ?e"
    by (simp add: extracted_def loop_eval)
  have c: "pdf_candidates ?e extract_path
     = [[''combined_extraction'', ''bad.pdf''], [''combined_extraction'', ''good.pdf'']]"
    by (simp add: walk_eval)
  have bad: "\<not> appends ?e [''combined_extraction'', ''bad.pdf'']"
    by (simp add: appends_def)
  have err: "ErrAdding [''combined_extraction'', ''bad.pdf''] PdfReadError
     \<in> set (printed (batch_unzip True ?w))"
    using merge_stage_of_run [OF 1 2 3 4, of True] bad unfolding e c by simp
  have off: "after (batch_unzip False ?w) = Some (Dir ?e)"
    using merge_stage_of_run [OF 1 2 3 4, of False] unfolding e by simp
  have on: "after (batch_unzip True ?w)
     = Some (Dir [(''x.zip'', File (Zip [Member ''bad.pdf'' True (Blob ''junk''),
                                         Member ''good.pdf'' True (Pdf [''g1''])])),
                  (''combined_extraction'',
                     Dir [(''bad.pdf'', File (Blob ''junk'')),
                          (''good.pdf'', File (Pdf [''g1''])),
                          (''merged.pdf'', File (Pdf [''g1'']))])])"
    by (simp add: setup_eval)
       (simp add: fs_combine_pdfs loop_eval c [unfolded extract_path_def] pages_of_def)
  from err on off show ?thesis
    by simp
qed

subsection \<open>The search for the archives\<close>

lemma find_zip_files_None_iff:
  "find_zip_files d = None \<longleftrightarrow> (\<forall>n \<in> set (listdir d). \<not> endswith (lower n) ''.zip'')"
  by (auto simp: find_zip_files_def glob_zip_def Let_def filter_empty_conv
           dest: lower_zip_suffix)

text \<open>
  The first method of the search (line 93) tests \<^verbatim>\<open>os.path.isfile\<close>: when the directory
  directly holds at least one regular file whose name ends in \<^verbatim>\<open>.zip\<close>, case ignored,
  the search returns exactly those files. The two other methods (lines 97 and 102) are
  used when the first finds nothing, and test the name only.
\<close>

lemma find_zip_files_first_method:
  "zip_named_files d \<noteq> [] \<Longrightarrow>
     find_zip_files d = Some (1, zip_named_files d) \<and> located d = zip_named_files d"
  by (simp add: located_def find_zip_files_def zip_named_files_def Let_def)

text \<open>
  C6: the search returns exactly the regular files directly inside the directory whose
  name ends in \<^verbatim>\<open>.zip\<close>, case ignored. It does not for a directory that holds no such
  file but a sub-directory named \<^verbatim>\<open>x.zip\<close>: the first list is empty, \<^verbatim>\<open>glob\<close>, which
  has no test for a regular file, reports the sub-directory, and the search returns it by
  its second method, where the claim has the empty set.
\<close>

theorem locator_returns_directory:
  "zip_named_files [(''x.zip'', Dir [])] = [] \<and>
   find_zip_files [(''x.zip'', Dir [])] = Some (2, [''x.zip'']) \<and>
   located [(''x.zip'', Dir [])] = [''x.zip'']"
  by (simp add: located_def zip_named_files_def find_zip_files_def listdir_def isfile_def
                lower_def lower_char_def endswith_def glob_zip_def)

subsection \<open>Fatal conditions of the setup\<close>

text \<open>
  The three early returns of \<^verbatim>\<open>batch_unzip\<close> (lines 79, 84 and 116): when the directory
  does not exist, or one of the read, write and execute permissions is missing, or no
  entry directly inside has a name ending in \<^verbatim>\<open>.zip\<close>, case ignored, the run ends with
  the message of that condition as its last line, raises nothing, and leaves the
  directory as it was: the extraction folder is neither removed nor created.
\<close>

lemma early_returns:
  assumes "target w = None \<or> \<not> (r_ok w \<and> w_ok w \<and> x_ok w) \<or>
           (\<exists>d. target w = Some (Dir d) \<and>
                (\<forall>n \<in> set (listdir d). \<not> endswith (lower n) ''.zip''))"
  shows "after (batch_unzip a w) = target w \<and>
         uncaught (batch_unzip a w) = None \<and>
         left_open (batch_unzip a w) = [] \<and>
         CreatedDest \<notin> set (printed (batch_unzip a w)) \<and>
         RemovingExisting \<notin> set (printed (batch_unzip a w)) \<and>
         (\<exists>ls. printed (batch_unzip a w) = ls @ [ErrNoDirectory] \<or>
               printed (batch_unzip a w) = ls @ [ErrPermissions] \<or>
               printed (batch_unzip a w) = ls @ [NoZipFound])"
proof -
  from assms have "target w = None \<or> \<not> (r_ok w \<and> w_ok w \<and> x_ok w) \<or>
      (\<exists>d. target w = Some (Dir d) \<and> find_zip_files d = None)"
    by (simp add: find_zip_files_None_iff)
  then show ?thesis
    by (auto simp: batch_unzip_def check_permissions_def Let_def
             split: option.splits node.splits bool.splits)
qed

text \<open>
  C7: a fatal condition, one of them that zero \<^verbatim>\<open>.zip\<close> files are found, ends the run
  with a message and without creating the extraction folder. The directory below holds
  no file at all, only the sub-directory \<^verbatim>\<open>x.zip\<close>. The run does not end there: the
  search returns the sub-directory, the message that no ZIP files were found is not
  printed, the extraction folder is created, and the loop fails on the sub-directory.
\<close>

theorem directory_named_zip_not_fatal:
  "zip_named_files [(''x.zip'', Dir [])] = [] \<and>
   batch_unzip True
     \<lparr>target = Some (Dir [(''x.zip'', Dir [])]), r_ok = True, w_ok = True, x_ok = True\<rparr>
   = \<lparr>after = Some (Dir [(''x.zip'', Dir []), (''combined_extraction'', Dir [])]),
      printed = [PermissionCheck True True True, UsingMethod 2 [''x.zip''],
                 FoundZips [''x.zip''], CreatedDest,
                 Processing ''x.zip'', ErrExtracting ''x.zip'' OSError,
                 TotalOnDisk 0, Expected 0, NoPdfFound, Completed],
      uncaught = None, left_open = []\<rparr>"
proof
  show "zip_named_files [(''x.zip'', Dir [])] = []"
    by (simp add: zip_named_files_def listdir_def isfile_def)
  show "batch_unzip True
     \<lparr>target = Some (Dir [(''x.zip'', Dir [])]), r_ok = True, w_ok = True, x_ok = True\<rparr>
   = \<lparr>after = Some (Dir [(''x.zip'', Dir []), (''combined_extraction'', Dir [])]),
      printed = [PermissionCheck True True True, UsingMethod 2 [''x.zip''],
                 FoundZips [''x.zip''], CreatedDest,
                 Processing ''x.zip'', ErrExtracting ''x.zip'' OSError,
                 TotalOnDisk 0, Expected 0, NoPdfFound, Completed],
      uncaught = None, left_open = []\<rparr>"
    by (simp add: setup_eval)
       (simp add: run_eval files_below_def walk_at_def walk.simps combine_pdfs_def)
qed

end
